theory Spec2Isabelle
  imports Main "HOL-Library.Multiset"
begin

section \<open>Sync service: the data model\<close>

text \<open>
  The sync service is the second module of
  \<^verbatim>\<open>src/lib/microservices/backup-service/backup-service.ts\<close> (lines 267--390 of the
  file as stored). It imports \<^verbatim>\<open>JobStatus\<close>, \<^verbatim>\<open>RuleStatus\<close>, \<^verbatim>\<open>IJob\<close> and \<^verbatim>\<open>Rule\<close> from
  modules that are not among the sources, so the three types below are taken from the
  specification's data model and from the fields the code reads and writes.
\<close>

text \<open>
  Modelled from the spec: the enum \<^verbatim>\<open>JobStatus\<close> of \<^verbatim>\<open>lib/enums/status\<close> (absent);
  the spec gives the job statuses \<^verbatim>\<open>pending\<close>, \<^verbatim>\<open>started\<close>, \<^verbatim>\<open>finished\<close>, \<^verbatim>\<open>error\<close>.
\<close>

datatype JobStatus = Job_pending | Job_started | Job_finished | Job_error

text \<open>
  Modelled from the spec: the enum \<^verbatim>\<open>RuleStatus\<close> of \<^verbatim>\<open>lib/enums/status\<close> (absent);
  the spec gives the statuses \<^verbatim>\<open>pending\<close>, \<^verbatim>\<open>pass\<close>, \<^verbatim>\<open>warning\<close>, \<^verbatim>\<open>error\<close>, \<^verbatim>\<open>off\<close>.
\<close>

datatype RuleStatus = Rule_pending | Rule_pass | Rule_warning | Rule_error | Rule_off

text \<open>
  Modelled from the spec: the types \<^verbatim>\<open>Rule\<close> and \<^verbatim>\<open>IJob\<close> of \<^verbatim>\<open>lib/types\<close> (absent).
  The fields are the ones the sync service uses: \<^verbatim>\<open>rule.name\<close>, \<^verbatim>\<open>rule.status\<close>,
  \<^verbatim>\<open>rule.messages\<close>, and \<^verbatim>\<open>job.id\<close>, \<^verbatim>\<open>job.part\<close>, \<^verbatim>\<open>job.totalParts\<close>, \<^verbatim>\<open>job.status\<close>,
  \<^verbatim>\<open>job.rules\<close>, \<^verbatim>\<open>job.started\<close>, \<^verbatim>\<open>job.finished\<close>, \<^verbatim>\<open>job.error\<close>, \<^verbatim>\<open>job.sonarVersion\<close>.
  Field names carry the prefix of their record, since both records have a \<^verbatim>\<open>status\<close>.
  A message of a rule is opaque to the sync service and is kept as its text; a timestamp
  is a number of milliseconds; a field that may be \<^verbatim>\<open>undefined\<close> is an option.
\<close>

record Rule =
  rule_name :: string
  rule_status :: RuleStatus
  rule_messages :: "string list"

record IJob =
  job_id :: nat
  job_part :: nat
  job_totalParts :: nat
  job_status :: JobStatus
  job_rules :: "Rule list"
  job_started :: "int option"
  job_finished :: "int option"
  job_error :: "string option"
  job_sonarVersion :: "string option"

text \<open>
  Reading a property of \<^verbatim>\<open>undefined\<close> throws a \<^verbatim>\<open>TypeError\<close>; it is the only
  exception the listener's own code can raise.
\<close>

datatype error = TypeError

text \<open>
  Modelled from the spec: the module \<^verbatim>\<open>common/database/database\<close> (absent). The
  durable store is a collection of job records, each identified by its \<^verbatim>\<open>id\<close>.
  \<^verbatim>\<open>getJob\<close> returns the record with the given id (\<^verbatim>\<open>None\<close> when there is none) and
  \<^verbatim>\<open>updateJob\<close> persists a record in the place of the stored record with its id.
\<close>

type_synonym database = "IJob list"

definition getJob :: "database \<Rightarrow> nat \<Rightarrow> IJob option" where
  "getJob db i = find (\<lambda>j. job_id j = i) db"

fun updateJob :: "database \<Rightarrow> IJob \<Rightarrow> database" where
  "updateJob [] dbJob = []"
| "updateJob (j # js) dbJob =
     (if job_id j = job_id dbJob then dbJob # js else j # updateJob js dbJob)"

section \<open>Sync service: the operations\<close>

text \<open>
  \<^verbatim>\<open>getRule\<close> (lines 280--284) is \<^verbatim>\<open>rules.find(rule => rule.name === name)\<close>: the
  first rule of that name, or \<^verbatim>\<open>undefined\<close>. The caller mutates the object it gets, so
  the reference is modelled by the position of that rule in the array.
\<close>

fun getRule :: "string \<Rightarrow> Rule list \<Rightarrow> nat option" where
  "getRule n [] = None"
| "getRule n (rule # rules) =
     (if rule_name rule = n then Some 0 else map_option Suc (getRule n rules))"

text \<open>
  \<^verbatim>\<open>setRules\<close> (lines 291--300) loops over the rules of the message. For each it looks
  the rule up in the record; \<^verbatim>\<open>dbJobRule.status\<close> throws when the lookup gave
  \<^verbatim>\<open>undefined\<close>. \<open>setRule\<close> is the conditional of lines 295--298 on the rule found:
  a pending rule of the record takes the messages and the status of the message's rule,
  any other rule is left alone. \<open>setRulesLoop\<close> is the \<^verbatim>\<open>for\<close> loop over
  \<^verbatim>\<open>job.rules\<close>, with the rules of \<^verbatim>\<open>dbJob\<close> as the state.
\<close>

definition setRule :: "Rule \<Rightarrow> Rule \<Rightarrow> Rule" where
  "setRule dbJobRule rule =
     (if rule_status dbJobRule = Rule_pending
      then dbJobRule\<lparr>rule_messages := rule_messages rule, rule_status := rule_status rule\<rparr>
      else dbJobRule)"

fun setRulesLoop :: "Rule list \<Rightarrow> Rule list \<Rightarrow> error + Rule list" where
  "setRulesLoop dbRules [] = Inr dbRules"
| "setRulesLoop dbRules (rule # rest) =
     (case getRule (rule_name rule) dbRules of
        None \<Rightarrow> Inl TypeError
      | Some i \<Rightarrow> setRulesLoop (dbRules[i := setRule (dbRules ! i) rule]) rest)"

definition setRules :: "IJob \<Rightarrow> IJob \<Rightarrow> error + IJob" where
  "setRules dbJob job =
     (case setRulesLoop (job_rules dbJob) (job_rules job) of
        Inl e \<Rightarrow> Inl e
      | Inr rules \<Rightarrow> Inr (dbJob\<lparr>job_rules := rules\<rparr>))"

text \<open>\<^verbatim>\<open>isJobFinished\<close> (lines 306--310): no rule of the job is pending.\<close>

definition isJobFinished :: "IJob \<Rightarrow> bool" where
  "isJobFinished job = list_all (\<lambda>rule. rule_status rule \<noteq> Rule_pending) (job_rules job)"

text \<open>
  How a call of the listener ends: its promise resolves, or it rejects with the
  exception thrown inside.
\<close>

datatype completion = Resolved | Rejected error

text \<open>
  \<^verbatim>\<open>listener\<close> (lines 320--373), the handler of one message of the results queue. It
  returns the store after the call and how the call ended. The calls to the logger and to
  \<^verbatim>\<open>database.lock\<close> and \<^verbatim>\<open>database.unlock\<close> go to modules outside the sources and do not
  touch the job record; they are left out. The record read from the store is changed in
  memory and written back by \<^verbatim>\<open>updateJob\<close> at line 369 only, so a call that returns early
  or throws leaves the store as it was.
\<close>

definition listener :: "database \<Rightarrow> IJob \<Rightarrow> database \<times> completion" where
  "listener db job =
     (case getJob db (job_id job) of
        None \<Rightarrow> (db, Resolved)
      | Some dbJob \<Rightarrow>
          if job_status dbJob = Job_error then (db, Resolved)
          else if job_status job = Job_started then
            (let dbJob1 = (if job_status dbJob \<noteq> Job_started
                           then dbJob\<lparr>job_started := job_started job,
                                      job_sonarVersion := job_sonarVersion job\<rparr>
                           else dbJob);
                 dbJob2 = (if job_status dbJob1 = Job_pending
                           then dbJob1\<lparr>job_status := job_status job\<rparr>
                           else dbJob1)
             in (updateJob db dbJob2, Resolved))
          else
            (case setRules dbJob job of
               Inl e \<Rightarrow> (db, Rejected e)
             | Inr dbJob1 \<Rightarrow>
                 (let dbJob2 =
                        (if job_status job = Job_error
                         then dbJob1\<lparr>job_status := job_status job,
                                     job_finished := job_finished job,
                                     job_error := job_error job\<rparr>
                         else if isJobFinished dbJob1
                         then dbJob1\<lparr>job_finished := job_finished job,
                                     job_status := job_status job\<rparr>
                         else dbJob1)
                  in (updateJob db dbJob2, Resolved))))"

text \<open>
  The store after the listener has been called on each message of a sequence, in the
  order of the sequence. A call that rejects leaves the store as it was.
\<close>

definition listenerSeq :: "database \<Rightarrow> IJob list \<Rightarrow> database" where
  "listenerSeq db jobs = foldl (\<lambda>d job. fst (listener d job)) db jobs"

text \<open>
  Two predicates used to state the properties of the merge. \<open>knownRules dbJob job\<close>:
  every rule name of the message is the name of a rule of the record.
  \<open>keepsDecided dbJob dbJob'\<close>: the second record has the rules of the first, under
  the same names and in the same order, and every rule that was not pending in the first
  is the same in the second (status and messages).
\<close>

definition knownRules :: "IJob \<Rightarrow> IJob \<Rightarrow> bool" where
  "knownRules dbJob job =
     list_all (\<lambda>rule. rule_name rule \<in> set (map rule_name (job_rules dbJob))) (job_rules job)"

definition keepsDecided :: "IJob \<Rightarrow> IJob \<Rightarrow> bool" where
  "keepsDecided dbJob dbJob' =
     list_all2 (\<lambda>r r'. rule_name r' = rule_name r \<and> (rule_status r = Rule_pending \<or> r' = r))
       (job_rules dbJob) (job_rules dbJob')"

text \<open>
  \<open>stepProps dbJob dbJob'\<close> collects what one call does to the record of any job: the
  rule names stay; decided rules are kept; an error record is not touched; and a record
  is marked finished only with every rule decided.
\<close>

definition stepProps :: "IJob \<Rightarrow> IJob \<Rightarrow> bool" where
  "stepProps d d' \<longleftrightarrow>
     map rule_name (job_rules d') = map rule_name (job_rules d) \<and>
     keepsDecided d d' \<and>
     (job_status d = Job_error \<longrightarrow> d' = d) \<and>
     ((job_status d = Job_finished \<longrightarrow> isJobFinished d) \<longrightarrow>
      (job_status d' = Job_finished \<longrightarrow> isJobFinished d'))"

section \<open>Worker service: the model of the specification\<close>

text \<open>
  Modelled from the spec: the worker service
  (\<^verbatim>\<open>src/lib/microservices/worker-service/worker-service\<close>), which is not among the
  sources; only its tests are (\<^verbatim>\<open>src/unnamed/part_000\<close>). The definitions of this section
  follow sections 3, 4.1 and 9 of the specification. What the specification leaves open is
  a parameter of the model: the size limit of the bus and the measure of a serialized
  message, the number of retries, and the resolution of hint statuses from the engine's
  messages (section 4.1.1, which none of the claims is about).
\<close>

datatype HintStatus = Hint_pending | Hint_pass | Hint_warning | Hint_error | Hint_off

text \<open>
  Modelled from the spec: the hint statuses, a message of a hint
  \<^verbatim>\<open>{hintId, message, location?, severity?}\<close> and a hint result (section 3).
\<close>

record Problem =
  problem_hintId :: "string option"
  problem_message :: string
  problem_location :: "string option"
  problem_severity :: "HintStatus option"

record Hint =
  hint_name :: string
  hint_status :: HintStatus
  hint_messages :: "Problem list"

text \<open>
  Modelled from the spec: the setting of a hint in a configuration bundle: a literal such as \<^verbatim>\<open>"off"\<close> or
  \<^verbatim>\<open>"error"\<close>, or a tuple such as \<^verbatim>\<open>["off", {}]\<close>, of which only the first element
  matters here. A bundle maps hint names to settings.
\<close>

datatype HintConfig = Literal string | Tuple string

type_synonym Bundle = "(string \<times> HintConfig) list"

text \<open>
  Modelled from the spec: the error payload of a result, a text or an object
  \<^verbatim>\<open>{message, stack?}\<close> (section 6).
\<close>

datatype ErrorPayload = ErrorText string | ErrorObject string "string option"

text \<open>
  Modelled from the spec: a sub-job, and a result message, which is the sub-job with its hints populated and its
  status set. \<open>sub_config\<close> is the \<^verbatim>\<open>hints\<close> object of the one configuration bundle
  \<^verbatim>\<open>config[0]\<close>.
\<close>

record SubJob =
  sub_id :: nat
  sub_url :: string
  sub_status :: JobStatus
  sub_hints :: "Hint list"
  sub_config :: Bundle
  sub_part :: nat
  sub_totalParts :: nat
  sub_started :: "int option"
  sub_finished :: "int option"
  sub_error :: "ErrorPayload option"
  sub_maxRunTime :: "nat option"

text \<open>
  Modelled from the spec: what ends the wait of step 3: the child's message \<^verbatim>\<open>{ok: true, messages}\<close> or
  \<^verbatim>\<open>{ok: false, error}\<close>; a spawn error, a crash or a non-zero exit before a message
  (section 4.1.4), with the cause as payload; the expiry of the \<^verbatim>\<open>maxRunTime\<close> timer;
  or the shutdown of the worker, with its error.
\<close>

datatype ChildEvent =
    ChildOk "Problem list"
  | ChildFailed ErrorPayload
  | ChildCrashed ErrorPayload
  | Deadline
  | WorkerShutdown ErrorPayload

text \<open>Modelled from the spec: the answers of the bus to a send (section 9).\<close>

datatype SendResult = SendOk | Oversize | Transient | Fatal

text \<open>
  The parameters of the model, which the specification leaves open: the size limit, the
  measure of a serialized result message and of the messages of one hint, the number of
  retries after a transient failure, and the resolution of a hint from the engine's
  messages.
\<close>

record Env =
  maxMessageSize :: nat
  messageSize :: "SubJob \<Rightarrow> nat"
  problemsSize :: "Problem list \<Rightarrow> nat"
  retries :: nat
  resolveHint :: "Bundle \<Rightarrow> Problem list \<Rightarrow> Hint \<Rightarrow> Hint"

text \<open>
  Modelled from the spec: step 1. The \<^verbatim>\<open>started\<close> message carries the sub-job's hints as they came (pending), with
  \<^verbatim>\<open>started = now()\<close>.
\<close>

definition startedMessage :: "int \<Rightarrow> SubJob \<Rightarrow> SubJob" where
  "startedMessage now s = s\<lparr>sub_status := Job_started, sub_started := Some now\<rparr>"

text \<open>
  Modelled from the spec: section 4.1.2, the error case. A hint is set to off by the
  literal \<^verbatim>\<open>"off"\<close> or by a tuple whose first element is \<^verbatim>\<open>"off"\<close>. A hint the bundle
  mentions and does not set to off is marked \<^verbatim>\<open>error\<close> with one synthetic message
  carrying the error text; a hint set to off is marked \<^verbatim>\<open>off\<close>; a hint the bundle does
  not mention is left as it is. The specification gives the text of the synthetic message
  only; its other fields are filled with the name of the hint and the severity
  \<^verbatim>\<open>error\<close>.
\<close>

fun isOff :: "HintConfig \<Rightarrow> bool" where
  "isOff (Literal v) = (v = ''off'')"
| "isOff (Tuple v) = (v = ''off'')"

fun errorText :: "ErrorPayload \<Rightarrow> string" where
  "errorText (ErrorText t) = t"
| "errorText (ErrorObject t stack) = t"

definition errorHint :: "Bundle \<Rightarrow> ErrorPayload \<Rightarrow> Hint \<Rightarrow> Hint" where
  "errorHint cfg e h =
     (case map_of cfg (hint_name h) of
        None \<Rightarrow> h
      | Some c \<Rightarrow>
          if isOff c then h\<lparr>hint_status := Hint_off\<rparr>
          else h\<lparr>hint_status := Hint_error,
                 hint_messages := [\<lparr>problem_hintId = Some (hint_name h),
                                     problem_message = errorText e,
                                     problem_location = None,
                                     problem_severity = Some Hint_error\<rparr>]\<rparr>)"

definition failedMessage :: "int \<Rightarrow> SubJob \<Rightarrow> ErrorPayload \<Rightarrow> SubJob" where
  "failedMessage now s e =
     s\<lparr>sub_status := Job_error, sub_finished := Some now, sub_error := Some e,
       sub_hints := map (errorHint (sub_config s) e) (sub_hints s)\<rparr>"

text \<open>
  Modelled from the spec: step 5, the deadline. Every hint that is still pending is
  marked \<^verbatim>\<open>pass\<close>; the status is \<^verbatim>\<open>finished\<close> and the error is \<^verbatim>\<open>{message: "TIMEOUT"}\<close>.
\<close>

definition passPending :: "Hint \<Rightarrow> Hint" where
  "passPending h = (if hint_status h = Hint_pending then h\<lparr>hint_status := Hint_pass\<rparr> else h)"

definition timeoutMessage :: "int \<Rightarrow> SubJob \<Rightarrow> SubJob" where
  "timeoutMessage now s =
     s\<lparr>sub_status := Job_finished, sub_finished := Some now,
       sub_error := Some (ErrorObject ''TIMEOUT'' None),
       sub_hints := map passPending (sub_hints s)\<rparr>"

text \<open>
  Modelled from the spec: steps 4 and 5, the terminal message built for what ended the wait. Child-process
  errors and the shutdown get the treatment of engine errors (sections 4.1 and 7).
\<close>

fun terminalMessage :: "Env \<Rightarrow> int \<Rightarrow> SubJob \<Rightarrow> ChildEvent \<Rightarrow> SubJob" where
  "terminalMessage E now s (ChildOk msgs) =
     s\<lparr>sub_status := Job_finished, sub_finished := Some now,
       sub_hints := map (resolveHint E (sub_config s) msgs) (sub_hints s)\<rparr>"
| "terminalMessage E now s (ChildFailed e) = failedMessage now s e"
| "terminalMessage E now s (ChildCrashed e) = failedMessage now s e"
| "terminalMessage E now s Deadline = timeoutMessage now s"
| "terminalMessage E now s (WorkerShutdown e) = failedMessage now s e"

text \<open>
  Modelled from the spec: section 4.1.3, the oversized-result policy. The entry that replaces the messages of a
  hint, and the replacement, which keeps the name and the status of the hint.
\<close>

definition tooManyErrors :: Problem where
  "tooManyErrors =
     \<lparr>problem_hintId = None,
      problem_message =
        ''This hint has too many errors, please use webhint locally for more details'',
      problem_location = None, problem_severity = None\<rparr>"

definition collapse :: "Hint \<Rightarrow> Hint" where
  "collapse h = h\<lparr>hint_messages := [tooManyErrors]\<rparr>"

text \<open>
  Modelled from the spec: item 3 of section 4.1.3, proactive: a hint whose messages alone
  measure more than the limit.
\<close>

definition collapseOversized :: "Env \<Rightarrow> Hint \<Rightarrow> Hint" where
  "collapseOversized E h =
     (if maxMessageSize E < problemsSize E (hint_messages h) then collapse h else h)"

text \<open>
  Modelled from the spec: item 2 of section 4.1.3, greedy first fit. A hint goes into the first group that still fits in a message
  with it, and opens a new group when there is none.
\<close>

fun place :: "Env \<Rightarrow> SubJob \<Rightarrow> Hint \<Rightarrow> Hint list list \<Rightarrow> Hint list list" where
  "place E m h [] = [[h]]"
| "place E m h (g # gs) =
     (if messageSize E (m\<lparr>sub_hints := g @ [h]\<rparr>) \<le> maxMessageSize E
      then (g @ [h]) # gs
      else g # place E m h gs)"

definition partitionHints :: "Env \<Rightarrow> SubJob \<Rightarrow> Hint list \<Rightarrow> Hint list list" where
  "partitionHints E m hs = foldl (\<lambda>gs h. place E m h gs) [] hs"

text \<open>
  Modelled from the spec: items 1 to 3 of section 4.1.3, the terminal messages to emit
  for a terminal message \<open>m\<close>. The replacement of item 3 comes before the measurement
  (the specification calls it proactive, pre-measurement): \<open>collapsed\<close> is the message
  with every oversized hint collapsed. If it fits it is emitted as one message;
  otherwise its hints are partitioned, each group in a message that shares everything
  else with it.
\<close>

definition collapsed :: "Env \<Rightarrow> SubJob \<Rightarrow> SubJob" where
  "collapsed E m = m\<lparr>sub_hints := map (collapseOversized E) (sub_hints m)\<rparr>"

definition packages :: "Env \<Rightarrow> SubJob \<Rightarrow> SubJob list" where
  "packages E m =
     (if messageSize E (collapsed E m) \<le> maxMessageSize E then [collapsed E m]
      else map (\<lambda>g. (collapsed E m)\<lparr>sub_hints := g\<rparr>)
             (partitionHints E (collapsed E m) (sub_hints (collapsed E m))))"

text \<open>
  Modelled from the spec: the results queue. The bus is scripted, as the stub of the tests is: the list holds its answers to the next
  calls of \<^verbatim>\<open>sendMessage\<close>, and it accepts every call after them. The log holds the calls
  made, each with its answer.
\<close>

type_synonym Bus = "SendResult list"

type_synonym Log = "(SubJob \<times> SendResult) list"

definition answer :: "Bus \<Rightarrow> SendResult \<times> Bus" where
  "answer bus = (case bus of [] \<Rightarrow> (SendOk, []) | r # rest \<Rightarrow> (r, rest))"

text \<open>
  Modelled from the spec: item 3 of section 4.1.3, reactive: after an oversize rejection
  the message is sent once more with the messages of one hint collapsed. The rejection
  does not name a hint; the hint taken is the one whose messages measure most (the first
  of them), which is the hint whose messages exceed the limit when there is a single such
  hint. \<open>heaviest\<close> is its position in the list of hints, and \<open>offender\<close> its position
  in a message.
\<close>

fun heaviest :: "Env \<Rightarrow> Hint list \<Rightarrow> nat" where
  "heaviest E [] = 0"
| "heaviest E (h # hs) =
     (if list_all (\<lambda>h'. problemsSize E (hint_messages h') \<le> problemsSize E (hint_messages h)) hs
      then 0 else Suc (heaviest E hs))"

definition offender :: "Env \<Rightarrow> SubJob \<Rightarrow> nat" where
  "offender E m = heaviest E (sub_hints m)"

definition collapseAt :: "nat \<Rightarrow> SubJob \<Rightarrow> SubJob" where
  "collapseAt i m =
     (if i < length (sub_hints m)
      then m\<lparr>sub_hints := (sub_hints m)[i := collapse (sub_hints m ! i)]\<rparr>
      else m)"

text \<open>
  Modelled from the spec: one emission. The result is the calls made, the bus after them, and whether the message
  was accepted. An accepted send is final. After an oversize rejection there is one resend,
  of the collapsed message, and it is final whatever its answer (item 4). A transient
  failure is retried while attempts are left (the first argument); a fatal one is not.
\<close>

fun sendMessage :: "Env \<Rightarrow> nat \<Rightarrow> Bus \<Rightarrow> SubJob \<Rightarrow> Log \<times> Bus \<times> bool" where
  "sendMessage E 0 bus m = ([], bus, False)"
| "sendMessage E (Suc n) bus m =
     (let (r, bus1) = answer bus in
      case r of
        SendOk \<Rightarrow> ([(m, SendOk)], bus1, True)
      | Oversize \<Rightarrow>
          (let m' = collapseAt (offender E m) m; (r', bus2) = answer bus1
           in ([(m, Oversize), (m', r')], bus2, r' = SendOk))
      | Transient \<Rightarrow>
          (let (log, bus2, ok) = sendMessage E n bus1 m in ((m, Transient) # log, bus2, ok))
      | Fatal \<Rightarrow> ([(m, Fatal)], bus1, False))"

text \<open>
  Modelled from the spec: the messages of a sub-job are emitted in order; when an emission is given up the sub-job
  is dropped (section 4.1, failure semantics) and nothing more is sent for it.
\<close>

fun sendAll :: "Env \<Rightarrow> Bus \<Rightarrow> SubJob list \<Rightarrow> Log" where
  "sendAll E bus [] = []"
| "sendAll E bus (m # ms) =
     (let (log, bus1, ok) = sendMessage E (Suc (retries E)) bus m
      in if ok then log @ sendAll E bus1 ms else log)"

text \<open>
  Modelled from the spec: processing a sub-job (section 4.1, steps 1 to 5): the \<^verbatim>\<open>started\<close> message, stamped \<open>t0\<close>, then the
  terminal message for what ended the wait, stamped \<open>t1\<close>, under the oversize policy.
  The result is the log of the calls of \<^verbatim>\<open>sendMessage\<close> on the results queue.
\<close>

definition process :: "Env \<Rightarrow> Bus \<Rightarrow> int \<Rightarrow> int \<Rightarrow> SubJob \<Rightarrow> ChildEvent \<Rightarrow> Log" where
  "process E bus t0 t1 s ev =
     sendAll E bus
       (startedMessage t0 s # packages E (terminalMessage E t1 (startedMessage t0 s) ev))"

text \<open>
  The messages on the results queue are those of the calls the bus accepted. A log is
  complete when its last call was accepted: nothing was given up.
\<close>

definition delivered :: "Log \<Rightarrow> SubJob list" where
  "delivered log = map fst (filter (\<lambda>c. snd c = SendOk) log)"

definition complete :: "Log \<Rightarrow> bool" where
  "complete log \<longleftrightarrow> log \<noteq> [] \<and> snd (last log) = SendOk"

text \<open>
  Notions used to state the properties of the worker. \<open>variant E m m'\<close>: the message
  \<open>m'\<close> is \<open>m\<close>, or \<open>m\<close> with the messages of one hint collapsed after an oversize
  rejection. \<open>hintStatuses\<close>: the names of hints with their statuses. \<open>terminalCalls\<close>:
  the messages of the calls of a log that are not \<^verbatim>\<open>started\<close> messages.
  \<open>terminals\<close>: those of them the bus accepted.
\<close>

definition variant :: "Env \<Rightarrow> SubJob \<Rightarrow> SubJob \<Rightarrow> bool" where
  "variant E m m' \<longleftrightarrow> m' = m \<or> m' = collapseAt (offender E m) m"

definition hintStatuses :: "Hint list \<Rightarrow> (string \<times> HintStatus) list" where
  "hintStatuses hs = map (\<lambda>h. (hint_name h, hint_status h)) hs"

definition terminalCalls :: "Log \<Rightarrow> SubJob list" where
  "terminalCalls log = filter (\<lambda>m. sub_status m \<noteq> Job_started) (map fst log)"

definition terminals :: "Log \<Rightarrow> SubJob list" where
  "terminals log = filter (\<lambda>m. sub_status m \<noteq> Job_started) (delivered log)"

section \<open>Worker service: example sub-jobs\<close>

text \<open>
  The parameters of the examples. The limit is 100; a message measures the lengths of
  the texts of the messages of its hints; two retries. The status of a hint with messages is the
  level its setting configures, a mentioned hint without messages passes, a hint set to
  off is off, and a hint that is not mentioned is left alone: this is what the tests of
  the worker expect of engine messages that carry no severity.
\<close>

fun level :: "HintConfig \<Rightarrow> HintStatus" where
  "level (Literal v) = (if v = ''error'' then Hint_error else Hint_warning)"
| "level (Tuple v) = (if v = ''error'' then Hint_error else Hint_warning)"

definition exResolve :: "Bundle \<Rightarrow> Problem list \<Rightarrow> Hint \<Rightarrow> Hint" where
  "exResolve cfg msgs h =
     (let b = filter (\<lambda>p. problem_hintId p = Some (hint_name h)) msgs in
      case map_of cfg (hint_name h) of
        None \<Rightarrow> h
      | Some c \<Rightarrow>
          if isOff c then h\<lparr>hint_status := Hint_off\<rparr>
          else if b \<noteq> [] then h\<lparr>hint_status := level c, hint_messages := b\<rparr>
          else h\<lparr>hint_status := Hint_pass\<rparr>)"

definition exSize :: "Problem list \<Rightarrow> nat" where
  "exSize ps = sum_list (map (\<lambda>p. length (problem_message p)) ps)"

definition exEnv :: Env where
  "exEnv = \<lparr>maxMessageSize = 100,
     messageSize = (\<lambda>m. sum_list (map (\<lambda>h. exSize (hint_messages h)) (sub_hints m))),
     problemsSize = exSize,
     retries = 2,
     resolveHint = exResolve\<rparr>"

text \<open>
  The same parameters with a measure that counts 150 for what a message carries beside
  its hints: under it a message without hints is already over the limit.
\<close>

definition envelopeEnv :: Env where
  "envelopeEnv = exEnv\<lparr>messageSize := (\<lambda>m. 150 + messageSize exEnv m)\<rparr>"

definition pendingHint :: "string \<Rightarrow> Hint" where
  "pendingHint n = \<lparr>hint_name = n, hint_status = Hint_pending, hint_messages = []\<rparr>"

definition problem :: "string \<Rightarrow> string \<Rightarrow> Problem" where
  "problem n t = \<lparr>problem_hintId = Some n, problem_message = t, problem_location = None,
     problem_severity = None\<rparr>"

definition subJob :: "Bundle \<Rightarrow> Hint list \<Rightarrow> SubJob" where
  "subJob cfg hs = \<lparr>sub_id = 0, sub_url = ''http://example.com'', sub_status = Job_pending,
     sub_hints = hs, sub_config = cfg, sub_part = 1, sub_totalParts = 5, sub_started = None,
     sub_finished = None, sub_error = None, sub_maxRunTime = None\<rparr>"

text \<open>
  The sub-jobs of the tests in \<^verbatim>\<open>src/unnamed/part_000\<close>: lines 101--113 (one hint), lines
  139--147 and 494--503 (no hints, an empty bundle), lines 173--204 (the error case),
  lines 241--258 (the 413 retry) and lines 376--398 and 437--459 (two hints).
\<close>

definition jobHappy :: SubJob where
  "jobHappy = subJob [(''content-type'', Literal ''error'')] [pendingHint ''content-type'']"

definition jobEmpty :: SubJob where
  "jobEmpty = subJob [] []"

definition jobError :: SubJob where
  "jobError = subJob [(''axe'', Literal ''warning''), (''content-type'', Literal ''error''),
                      (''disown-opener'', Tuple ''off'')]
     [pendingHint ''axe'', pendingHint ''content-type'', pendingHint ''disown-opener'',
      pendingHint ''manifest-exists'']"

definition job413 :: SubJob where
  "job413 = subJob [(''axe'', Literal ''error'')] [pendingHint ''axe'', pendingHint ''content-type'']"

definition jobTwo :: SubJob where
  "jobTwo = subJob [(''axe'', Literal ''warning''), (''content-type'', Literal ''error'')]
     [pendingHint ''axe'', pendingHint ''content-type'']"

text \<open>A text of 60 characters, in the place of the fixture \<^verbatim>\<open>lipsum.txt\<close> of the tests.\<close>

definition lipsum :: string where
  "lipsum = ''Lorem ipsum dolor sit amet, consectetur adipiscing elit sed.''"


section \<open>Sync service: example records and messages\<close>

text \<open>
  A job record in its initial state, with the two rules \<^verbatim>\<open>axe\<close> and \<^verbatim>\<open>content-type\<close>
  pending, and messages of the results queue for it: the \<^verbatim>\<open>started\<close> message of part 1,
  the \<^verbatim>\<open>finished\<close> messages of the two parts, an \<^verbatim>\<open>error\<close> message of part 2, and an
  \<^verbatim>\<open>error\<close> message that carries a rule the record does not have.
\<close>

definition job0 :: IJob where
  "job0 = \<lparr>job_id = 0, job_part = 0, job_totalParts = 2, job_status = Job_pending,
      job_rules = [\<lparr>rule_name = ''axe'', rule_status = Rule_pending, rule_messages = []\<rparr>,
                   \<lparr>rule_name = ''content-type'', rule_status = Rule_pending, rule_messages = []\<rparr>],
      job_started = None, job_finished = None, job_error = None, job_sonarVersion = None\<rparr>"

definition msgStarted :: IJob where
  "msgStarted = job0\<lparr>job_part := 1, job_status := Job_started, job_started := Some 1000,
      job_sonarVersion := Some ''1.0''\<rparr>"

definition msgAxe :: IJob where
  "msgAxe = job0\<lparr>job_part := 1, job_status := Job_finished,
      job_rules := [\<lparr>rule_name = ''axe'', rule_status = Rule_warning, rule_messages = [''w1'']\<rparr>],
      job_started := Some 1000, job_finished := Some 2000\<rparr>"

definition msgContentType :: IJob where
  "msgContentType = job0\<lparr>job_part := 2, job_status := Job_finished,
      job_rules := [\<lparr>rule_name = ''content-type'', rule_status = Rule_pass, rule_messages = []\<rparr>],
      job_started := Some 1100, job_finished := Some 3000\<rparr>"

definition msgError :: IJob where
  "msgError = job0\<lparr>job_part := 2, job_status := Job_error,
      job_rules := [\<lparr>rule_name = ''content-type'', rule_status = Rule_error,
                     rule_messages = [''Error running webhint'']\<rparr>],
      job_started := Some 1100, job_finished := Some 2500,
      job_error := Some ''Error running webhint''\<rparr>"

definition msgUnknown :: IJob where
  "msgUnknown = job0\<lparr>job_part := 2, job_status := Job_error,
      job_rules := [\<lparr>rule_name = ''manifest-exists'', rule_status = Rule_error,
                     rule_messages = [''Error running webhint'']\<rparr>],
      job_finished := Some 2500, job_error := Some ''Error running webhint''\<rparr>"

section \<open>Sync service: lemmas on the rule loop\<close>

lemma getRule_None: "getRule n rules = None \<longleftrightarrow> n \<notin> rule_name ` set rules"
  by (induction rules) auto

lemma getRule_Some:
  "getRule n rules = Some i \<Longrightarrow> i < length rules \<and> rule_name (rules ! i) = n"
  by (induction rules arbitrary: i) (auto split: if_splits)

lemma setRule_name: "rule_name (setRule x r) = rule_name x"
  by (simp add: setRule_def)

lemma map_name_update:
  "map rule_name (db[i := setRule (db ! i) r]) = map rule_name db"
proof (cases "i < length db")
  case True
  then have "(map rule_name db)[i := rule_name (db ! i)] = map rule_name db"
    by (simp add: list_update_same_conv)
  then show ?thesis by (simp add: map_update setRule_name)
next
  case False
  then show ?thesis by (simp add: list_update_beyond)
qed

lemma names_getRule:
  "map rule_name db' = map rule_name db \<Longrightarrow> getRule n db' = getRule n db"
proof (induction db arbitrary: db')
  case Nil then show ?case by simp
next
  case (Cons a db)
  from Cons.prems obtain b db2 where d: "db' = b # db2" "rule_name b = rule_name a"
      "map rule_name db2 = map rule_name db"
    by (cases db') simp_all
  from Cons.IH[OF d(3)] d(1,2) show ?case by simp
qed

lemma setRulesLoop_names:
  "setRulesLoop db ms = Inr db' \<Longrightarrow> map rule_name db' = map rule_name db"
proof (induction ms arbitrary: db)
  case Nil then show ?case by simp
next
  case (Cons r rest)
  then obtain i where i: "getRule (rule_name r) db = Some i"
    by (auto split: option.splits)
  with Cons.prems have "setRulesLoop (db[i := setRule (db ! i) r]) rest = Inr db'"
    by simp
  from Cons.IH[OF this] show ?case
    by (simp add: map_name_update)
qed

lemma names_image:
  "map rule_name db' = map rule_name db \<Longrightarrow> rule_name ` set db' = rule_name ` set db"
proof -
  assume "map rule_name db' = map rule_name db"
  then have "set (map rule_name db') = set (map rule_name db)" by simp
  then show ?thesis by (simp only: set_map)
qed

lemma setRulesLoop_Inl:
  "(\<exists>e. setRulesLoop db ms = Inl e) \<longleftrightarrow> (\<exists>r\<in>set ms. rule_name r \<notin> rule_name ` set db)"
proof (induction ms arbitrary: db)
  case Nil then show ?case by simp
next
  case (Cons r rest)
  show ?case
  proof (cases "getRule (rule_name r) db")
    case None
    then have "rule_name r \<notin> rule_name ` set db" by (simp add: getRule_None)
    with None show ?thesis by simp
  next
    case (Some i)
    have a: "rule_name ` set (db[i := setRule (db ! i) r]) = rule_name ` set db"
      by (rule names_image) (rule map_name_update)
    have b: "rule_name r \<in> rule_name ` set db"
      using Some getRule_None[of "rule_name r" db] by auto
    show ?thesis
      using Some a b Cons.IH[of "db[i := setRule (db ! i) r]"] by simp
  qed
qed

lemma foldl_setRule_fixed:
  "rule_status x \<noteq> Rule_pending \<Longrightarrow> foldl setRule x rs = x"
  by (induction rs) (auto simp: setRule_def)

lemma foldl_setRule_pending:
  "rule_status x = Rule_pending \<Longrightarrow> \<forall>r\<in>set rs. rule_status r = Rule_pending \<Longrightarrow> rs \<noteq> [] \<Longrightarrow>
   foldl setRule x rs = x\<lparr>rule_messages := rule_messages (last rs)\<rparr>"
proof (induction rs arbitrary: x)
  case Nil then show ?case by simp
next
  case (Cons r rs)
  show ?case
  proof (cases "rs = []")
    case True
    with Cons.prems show ?thesis by (simp add: setRule_def)
  next
    case False
    have "rule_status (setRule x r) = Rule_pending" using Cons.prems by (simp add: setRule_def)
    from Cons.IH[OF this] Cons.prems False show ?thesis by (simp add: setRule_def)
  qed
qed

lemma foldl_setRule_status:
  "rule_status x = Rule_pending \<Longrightarrow> rule_status (foldl setRule x rs) = Rule_pending \<Longrightarrow>
   \<forall>r\<in>set rs. rule_status r = Rule_pending"
proof (induction rs arbitrary: x)
  case Nil then show ?case by simp
next
  case (Cons r rs)
  show ?case
  proof (cases "rule_status r = Rule_pending")
    case True
    then have "rule_status (setRule x r) = Rule_pending" using Cons.prems by (simp add: setRule_def)
    from Cons.IH[OF this] Cons.prems True show ?thesis by simp
  next
    case False
    then have "rule_status (setRule x r) \<noteq> Rule_pending" using Cons.prems by (simp add: setRule_def)
    from foldl_setRule_fixed[OF this] Cons.prems this show ?thesis by simp
  qed
qed

lemma foldl_setRule_idem: "foldl setRule (foldl setRule x rs) rs = foldl setRule x rs"
proof (cases "rule_status (foldl setRule x rs) = Rule_pending")
  case False
  then show ?thesis by (rule foldl_setRule_fixed)
next
  case True
  have x: "rule_status x = Rule_pending"
  proof (rule ccontr)
    assume "rule_status x \<noteq> Rule_pending"
    with foldl_setRule_fixed[OF this] True show False by simp
  qed
  have all: "\<forall>r\<in>set rs. rule_status r = Rule_pending"
    by (rule foldl_setRule_status[OF x True])
  show ?thesis
  proof (cases "rs = []")
    case True then show ?thesis by simp
  next
    case False
    have "foldl setRule x rs = x\<lparr>rule_messages := rule_messages (last rs)\<rparr>"
      by (rule foldl_setRule_pending[OF x all False])
    moreover have "foldl setRule (foldl setRule x rs) rs =
        (foldl setRule x rs)\<lparr>rule_messages := rule_messages (last rs)\<rparr>"
      by (rule foldl_setRule_pending[OF True all False])
    ultimately show ?thesis by simp
  qed
qed

lemma setRulesLoop_nth:
  "setRulesLoop db ms = Inr db' \<Longrightarrow> i < length db \<Longrightarrow>
   db' ! i = (if getRule (rule_name (db ! i)) db = Some i
              then foldl setRule (db ! i) (filter (\<lambda>r. rule_name r = rule_name (db ! i)) ms)
              else db ! i)"
proof (induction ms arbitrary: db)
  case Nil then show ?case by simp
next
  case (Cons r rest)
  then obtain k where k: "getRule (rule_name r) db = Some k"
    by (auto split: option.splits)
  let ?db1 = "db[k := setRule (db ! k) r]"
  from k Cons.prems have run: "setRulesLoop ?db1 rest = Inr db'"
    by simp
  have kk: "k < length db" "rule_name (db ! k) = rule_name r"
    using getRule_Some[OF k] by auto
  have g: "\<And>n. getRule n ?db1 = getRule n db"
    by (rule names_getRule) (rule map_name_update)
  have len: "i < length ?db1" using Cons.prems by simp
  note ih = Cons.IH[OF run len]
  show ?case
  proof (cases "i = k")
    case True
    with ih kk k g show ?thesis by (simp add: setRule_name)
  next
    case False
    have "getRule (rule_name (db ! i)) db = Some i \<Longrightarrow> rule_name r \<noteq> rule_name (db ! i)"
      using k False by auto
    with ih False g show ?thesis by auto
  qed
qed

lemma setRulesLoop_length:
  "setRulesLoop db ms = Inr db' \<Longrightarrow> length db' = length db"
  using arg_cong[OF setRulesLoop_names, of db ms db' length] by simp

lemma setRulesLoop_idem:
  assumes "setRulesLoop db ms = Inr db'"
  shows "setRulesLoop db' ms = Inr db'"
proof -
  have names: "map rule_name db' = map rule_name db"
    by (rule setRulesLoop_names[OF assms])
  have len: "length db' = length db" by (rule setRulesLoop_length[OF assms])
  have "\<not> (\<exists>e. setRulesLoop db ms = Inl e)" using assms by simp
  then have "\<not> (\<exists>e. setRulesLoop db' ms = Inl e)"
    unfolding setRulesLoop_Inl names_image[OF names] .
  then obtain db'' where run2: "setRulesLoop db' ms = Inr db''"
    by (cases "setRulesLoop db' ms") auto
  have len2: "length db'' = length db'" by (rule setRulesLoop_length[OF run2])
  have "db'' = db'"
  proof (rule nth_equalityI)
    show "length db'' = length db'" by (rule len2)
  next
    fix i assume "i < length db''"
    then have i: "i < length db" "i < length db'" using len len2 by auto
    have n: "rule_name (db' ! i) = rule_name (db ! i)"
      using arg_cong[OF names, of "\<lambda>xs. xs ! i"] i by simp
    have g: "getRule (rule_name (db ! i)) db' = getRule (rule_name (db ! i)) db"
      by (rule names_getRule[OF names])
    show "db'' ! i = db' ! i"
    proof (cases "getRule (rule_name (db ! i)) db = Some i")
      case True
      let ?F = "filter (\<lambda>r. rule_name r = rule_name (db ! i)) ms"
      have a: "db' ! i = foldl setRule (db ! i) ?F"
        using setRulesLoop_nth[OF assms i(1)] True by simp
      have "db'' ! i = foldl setRule (db' ! i) ?F"
        using setRulesLoop_nth[OF run2 i(2)] True g by (simp add: n)
      then show ?thesis unfolding a by (simp only: foldl_setRule_idem)
    next
      case False
      have "db'' ! i = db' ! i"
        using setRulesLoop_nth[OF run2 i(2)] False g by (simp add: n)
      then show ?thesis .
    qed
  qed
  with run2 show ?thesis by simp
qed

lemma setRulesLoop_frozen:
  "setRulesLoop db ms = Inr db' \<Longrightarrow> i < length db \<Longrightarrow>
   rule_status (db ! i) \<noteq> Rule_pending \<Longrightarrow> db' ! i = db ! i"
  by (simp add: setRulesLoop_nth foldl_setRule_fixed)

lemma setRulesLoop_keeps:
  assumes "setRulesLoop db ms = Inr db'"
  shows "list_all2 (\<lambda>r r'. rule_name r' = rule_name r \<and> (rule_status r = Rule_pending \<or> r' = r)) db db'"
proof (rule list_all2_all_nthI)
  show "length db = length db'" using setRulesLoop_length[OF assms] by simp
next
  fix i assume i: "i < length db"
  then have i': "i < length db'" using setRulesLoop_length[OF assms] by simp
  have "rule_name (db' ! i) = rule_name (db ! i)"
    using arg_cong[OF setRulesLoop_names[OF assms], of "\<lambda>xs. xs ! i"] i i' by simp
  moreover have "rule_status (db ! i) = Rule_pending \<or> db' ! i = db ! i"
    using setRulesLoop_frozen[OF assms i] by blast
  ultimately show "rule_name (db' ! i) = rule_name (db ! i) \<and>
      (rule_status (db ! i) = Rule_pending \<or> db' ! i = db ! i)" by simp
qed

lemma setRulesLoop_decided:
  assumes "setRulesLoop db ms = Inr db'"
    and "list_all (\<lambda>rule. rule_status rule \<noteq> Rule_pending) db"
  shows "db' = db"
proof (rule nth_equalityI)
  show "length db' = length db" by (rule setRulesLoop_length[OF assms(1)])
next
  fix i assume "i < length db'"
  then have i: "i < length db" using setRulesLoop_length[OF assms(1)] by simp
  then have "rule_status (db ! i) \<noteq> Rule_pending" using assms(2) by (simp add: list_all_length)
  from setRulesLoop_frozen[OF assms(1) i this] show "db' ! i = db ! i" .
qed

section \<open>Sync service: lemmas on the store\<close>

lemma getJob_Some: "getJob db i = Some d \<Longrightarrow> job_id d = i"
  unfolding getJob_def by (induction db) (auto split: if_splits)

lemma getJob_updateJob:
  "getJob (updateJob db d') i =
     (if i = job_id d' \<and> getJob db i \<noteq> None then Some d' else getJob db i)"
  unfolding getJob_def by (induction db) auto

lemma updateJob_updateJob:
  "job_id d1 = job_id d2 \<Longrightarrow> updateJob (updateJob db d1) d2 = updateJob db d2"
  by (induction db) auto

section \<open>Sync service: lemmas on one call of the listener\<close>

lemma listener_absent:
  "getJob db (job_id job) = None \<Longrightarrow> listener db job = (db, Resolved)"
  by (simp add: listener_def)

lemma listener_error:
  "getJob db (job_id job) = Some dbJob \<Longrightarrow> job_status dbJob = Job_error \<Longrightarrow>
   listener db job = (db, Resolved)"
  by (simp add: listener_def)

lemma listener_started:
  "getJob db (job_id job) = Some dbJob \<Longrightarrow> job_status dbJob \<noteq> Job_error \<Longrightarrow>
   job_status job = Job_started \<Longrightarrow>
   listener db job =
     (updateJob db
        (if job_status dbJob = Job_started then dbJob
         else if job_status dbJob = Job_pending
         then dbJob\<lparr>job_started := job_started job, job_sonarVersion := job_sonarVersion job,
                     job_status := Job_started\<rparr>
         else dbJob\<lparr>job_started := job_started job, job_sonarVersion := job_sonarVersion job\<rparr>),
      Resolved)"
  by (simp add: listener_def Let_def)

lemma listener_throws:
  "getJob db (job_id job) = Some dbJob \<Longrightarrow> job_status dbJob \<noteq> Job_error \<Longrightarrow>
   job_status job \<noteq> Job_started \<Longrightarrow>
   setRulesLoop (job_rules dbJob) (job_rules job) = Inl e \<Longrightarrow>
   listener db job = (db, Rejected e)"
  by (simp add: listener_def setRules_def)

lemma listener_terminal:
  "getJob db (job_id job) = Some dbJob \<Longrightarrow> job_status dbJob \<noteq> Job_error \<Longrightarrow>
   job_status job \<noteq> Job_started \<Longrightarrow>
   setRulesLoop (job_rules dbJob) (job_rules job) = Inr rules \<Longrightarrow>
   listener db job =
     (updateJob db
        (if job_status job = Job_error
         then dbJob\<lparr>job_rules := rules, job_status := Job_error,
                     job_finished := job_finished job, job_error := job_error job\<rparr>
         else if list_all (\<lambda>rule. rule_status rule \<noteq> Rule_pending) rules
         then dbJob\<lparr>job_rules := rules, job_finished := job_finished job,
                     job_status := job_status job\<rparr>
         else dbJob\<lparr>job_rules := rules\<rparr>),
      Resolved)"
  by (simp add: listener_def setRules_def Let_def isJobFinished_def)

lemma listener_other:
  assumes "i \<noteq> job_id job"
  shows "getJob (fst (listener db job)) i = getJob db i"
proof (cases "getJob db (job_id job)")
  case None
  then show ?thesis by (simp add: listener_absent)
next
  case (Some d)
  have id: "job_id d = job_id job" by (rule getJob_Some[OF Some])
  show ?thesis
  proof (cases "job_status d = Job_error")
    case True
    with Some show ?thesis by (simp add: listener_error)
  next
    case False
    show ?thesis
    proof (cases "job_status job = Job_started")
      case True
      with Some False assms id show ?thesis
        by (simp add: listener_started getJob_updateJob)
    next
      case ns: False
      show ?thesis
      proof (cases "setRulesLoop (job_rules d) (job_rules job)")
        case (Inl e)
        with Some False ns show ?thesis by (simp add: listener_throws)
      next
        case (Inr rules)
        with Some False ns assms id show ?thesis
          by (simp add: listener_terminal getJob_updateJob)
      qed
    qed
  qed
qed

lemma keepsDecided_refl: "keepsDecided d d"
  by (simp add: keepsDecided_def list_all2_same)

lemma keepsDecided_trans:
  assumes "keepsDecided a b" and "keepsDecided b c"
  shows "keepsDecided a c"
  unfolding keepsDecided_def
proof (rule list_all2_trans[OF _ assms(1)[unfolded keepsDecided_def] assms(2)[unfolded keepsDecided_def]])
  fix r r' r''
  assume "rule_name r' = rule_name r \<and> (rule_status r = Rule_pending \<or> r' = r)"
    and "rule_name r'' = rule_name r' \<and> (rule_status r' = Rule_pending \<or> r'' = r')"
  then show "rule_name r'' = rule_name r \<and> (rule_status r = Rule_pending \<or> r'' = r)"
    by auto
qed

lemma stepProps_refl: "stepProps d d"
  by (simp add: stepProps_def keepsDecided_refl)

lemma stepProps_rules:
  assumes "job_status d \<noteq> Job_error"
  shows "stepProps d (d\<lparr>job_started := a, job_sonarVersion := b\<rparr>)"
    and "stepProps d (d\<lparr>job_started := a, job_sonarVersion := b, job_status := Job_started\<rparr>)"
  using assms by (simp_all add: stepProps_def keepsDecided_def list_all2_same isJobFinished_def)

lemma stepProps_terminal:
  assumes run: "setRulesLoop (job_rules d) (job_rules job) = Inr rules"
    and ne: "job_status d \<noteq> Job_error"
  shows "stepProps d
        (if job_status job = Job_error
         then d\<lparr>job_rules := rules, job_status := Job_error,
                     job_finished := job_finished job, job_error := job_error job\<rparr>
         else if list_all (\<lambda>rule. rule_status rule \<noteq> Rule_pending) rules
         then d\<lparr>job_rules := rules, job_finished := job_finished job,
                     job_status := job_status job\<rparr>
         else d\<lparr>job_rules := rules\<rparr>)"
proof -
  have n: "map rule_name rules = map rule_name (job_rules d)"
    by (rule setRulesLoop_names[OF run])
  have k: "list_all2 (\<lambda>r r'. rule_name r' = rule_name r \<and> (rule_status r = Rule_pending \<or> r' = r))
            (job_rules d) rules"
    by (rule setRulesLoop_keeps[OF run])
  have dec: "list_all (\<lambda>rule. rule_status rule \<noteq> Rule_pending) (job_rules d) \<Longrightarrow> rules = job_rules d"
    by (rule setRulesLoop_decided[OF run])
  show ?thesis
  proof (cases "job_status job = Job_error")
    case True
    show ?thesis
      unfolding stepProps_def keepsDecided_def using n k ne True by simp
  next
    case je: False
    show ?thesis
    proof (cases "list_all (\<lambda>rule. rule_status rule \<noteq> Rule_pending) rules")
      case True
      show ?thesis
        unfolding stepProps_def keepsDecided_def isJobFinished_def using n k ne je True by simp
    next
      case False
      have "\<not> isJobFinished d"
        using dec False by (auto simp: isJobFinished_def)
      then show ?thesis
        unfolding stepProps_def keepsDecided_def using n k ne je False by simp
    qed
  qed
qed

lemma listener_record_started:
  assumes "getJob db (job_id job) = Some d" and "job_status d \<noteq> Job_error"
    and "job_status job = Job_started"
  shows "\<exists>d'. getJob (fst (listener db job)) (job_id job) = Some d' \<and> stepProps d d'"
proof -
  have id: "job_id d = job_id job" by (rule getJob_Some[OF assms(1)])
  let ?d' = "(if job_status d = Job_started then d
         else if job_status d = Job_pending
         then d\<lparr>job_started := job_started job, job_sonarVersion := job_sonarVersion job,
                     job_status := Job_started\<rparr>
         else d\<lparr>job_started := job_started job, job_sonarVersion := job_sonarVersion job\<rparr>)"
  have j: "job_id ?d' = job_id job" using id by simp
  have g: "getJob (fst (listener db job)) (job_id job) = Some ?d'"
    unfolding listener_started[OF assms] fst_conv getJob_updateJob j
    using assms(1) by simp
  have p: "stepProps d ?d'"
    using stepProps_refl[of d] stepProps_rules[OF assms(2)] by simp
  show ?thesis
    by (rule exI[of _ ?d']) (rule conjI[OF g p])
qed

lemma listener_record_terminal:
  assumes "getJob db (job_id job) = Some d" and "job_status d \<noteq> Job_error"
    and "job_status job \<noteq> Job_started"
    and "setRulesLoop (job_rules d) (job_rules job) = Inr rules"
  shows "\<exists>d'. getJob (fst (listener db job)) (job_id job) = Some d' \<and> stepProps d d'"
proof -
  have id: "job_id d = job_id job" by (rule getJob_Some[OF assms(1)])
  let ?d' = "(if job_status job = Job_error
         then d\<lparr>job_rules := rules, job_status := Job_error,
                     job_finished := job_finished job, job_error := job_error job\<rparr>
         else if list_all (\<lambda>rule. rule_status rule \<noteq> Rule_pending) rules
         then d\<lparr>job_rules := rules, job_finished := job_finished job,
                     job_status := job_status job\<rparr>
         else d\<lparr>job_rules := rules\<rparr>)"
  have j: "job_id ?d' = job_id job" using id by simp
  have g: "getJob (fst (listener db job)) (job_id job) = Some ?d'"
    unfolding listener_terminal[OF assms] fst_conv getJob_updateJob j
    using assms(1) by simp
  show ?thesis
    by (rule exI[of _ ?d']) (rule conjI[OF g stepProps_terminal[OF assms(4,2)]])
qed

lemma listener_record:
  assumes "getJob db i = Some d"
  shows "\<exists>d'. getJob (fst (listener db job)) i = Some d' \<and> stepProps d d'"
proof (cases "i = job_id job")
  case False
  with assms show ?thesis by (simp add: listener_other stepProps_refl)
next
  case i: True
  note a = assms[unfolded i]
  show ?thesis
    unfolding i
  proof (cases "job_status d = Job_error")
    case True
    with a show "\<exists>d'. getJob (fst (listener db job)) (job_id job) = Some d' \<and> stepProps d d'"
      by (simp add: listener_error stepProps_refl)
  next
    case ne: False
    show "\<exists>d'. getJob (fst (listener db job)) (job_id job) = Some d' \<and> stepProps d d'"
    proof (cases "job_status job = Job_started")
      case True
      show ?thesis by (rule listener_record_started[OF a ne True])
    next
      case ns: False
      show ?thesis
      proof (cases "setRulesLoop (job_rules d) (job_rules job)")
        case (Inl e)
        with a ne ns show ?thesis by (simp add: listener_throws stepProps_refl)
      next
        case (Inr rules)
        show ?thesis by (rule listener_record_terminal[OF a ne ns Inr])
      qed
    qed
  qed
qed

lemma stepProps_trans: "stepProps a b \<Longrightarrow> stepProps b c \<Longrightarrow> stepProps a c"
  unfolding stepProps_def using keepsDecided_trans by auto

lemma listenerSeq_Cons:
  "listenerSeq db (job # jobs) = listenerSeq (fst (listener db job)) jobs"
  by (simp add: listenerSeq_def)

lemma listenerSeq_append:
  "listenerSeq db (xs @ ys) = listenerSeq (listenerSeq db xs) ys"
  by (simp add: listenerSeq_def)

lemma listenerSeq_record:
  "getJob db i = Some d \<Longrightarrow> \<exists>d'. getJob (listenerSeq db jobs) i = Some d' \<and> stepProps d d'"
proof (induction jobs arbitrary: db d)
  case Nil
  then show ?case by (simp add: listenerSeq_def stepProps_refl)
next
  case (Cons job jobs)
  from listener_record[OF Cons.prems, of job] obtain d1 where
    d1: "getJob (fst (listener db job)) i = Some d1" "stepProps d d1" by blast
  from Cons.IH[OF d1(1)] obtain d2 where
    d2: "getJob (listenerSeq (fst (listener db job)) jobs) i = Some d2" "stepProps d1 d2" by blast
  from d2 stepProps_trans[OF d1(2) d2(2)] show ?case
    by (auto simp: listenerSeq_Cons)
qed


lemma knownRules_Inl:
  "(\<exists>e. setRulesLoop (job_rules dbJob) (job_rules job) = Inl e) \<longleftrightarrow> \<not> knownRules dbJob job"
  unfolding setRulesLoop_Inl knownRules_def by (simp add: list_all_iff)

lemma setRulesLoop_TypeError:
  "setRulesLoop db ms = Inl e \<Longrightarrow> e = TypeError"
  by (cases e) simp

lemma knownRules_names:
  "map rule_name (job_rules d') = map rule_name (job_rules d) \<Longrightarrow>
   knownRules d' job = knownRules d job"
  by (simp add: knownRules_def)

lemma listener_idem:
  "listener (fst (listener db job)) job = listener db job"
proof (cases "getJob db (job_id job)")
  case None
  then show ?thesis by (simp add: listener_absent)
next
  case (Some d)
  have id: "job_id d = job_id job" by (rule getJob_Some[OF Some])
  show ?thesis
  proof (cases "job_status d = Job_error")
    case True
    with Some show ?thesis by (simp add: listener_error)
  next
    case ne: False
    show ?thesis
    proof (cases "job_status job = Job_started")
      case st: True
      let ?d' = "(if job_status d = Job_started then d
         else if job_status d = Job_pending
         then d\<lparr>job_started := job_started job, job_sonarVersion := job_sonarVersion job,
                     job_status := Job_started\<rparr>
         else d\<lparr>job_started := job_started job, job_sonarVersion := job_sonarVersion job\<rparr>)"
      have one: "listener db job = (updateJob db ?d', Resolved)"
        by (rule listener_started[OF Some ne st])
      have j: "job_id ?d' = job_id job" using id by simp
      have g: "getJob (updateJob db ?d') (job_id job) = Some ?d'"
        unfolding getJob_updateJob j using Some by simp
      have ne': "job_status ?d' \<noteq> Job_error" using ne by simp
      have same: "(if job_status ?d' = Job_started then ?d'
         else if job_status ?d' = Job_pending
         then ?d'\<lparr>job_started := job_started job, job_sonarVersion := job_sonarVersion job,
                     job_status := Job_started\<rparr>
         else ?d'\<lparr>job_started := job_started job, job_sonarVersion := job_sonarVersion job\<rparr>) = ?d'"
        by simp
      have two: "listener (updateJob db ?d') job = (updateJob (updateJob db ?d') ?d', Resolved)"
        unfolding listener_started[OF g ne' st] same ..
      show ?thesis
        unfolding one fst_conv two by (simp only: updateJob_updateJob)
    next
      case ns: False
      show ?thesis
      proof (cases "setRulesLoop (job_rules d) (job_rules job)")
        case (Inl e)
        with Some ne ns show ?thesis by (simp add: listener_throws)
      next
        case (Inr rules)
        let ?d' = "(if job_status job = Job_error
         then d\<lparr>job_rules := rules, job_status := Job_error,
                     job_finished := job_finished job, job_error := job_error job\<rparr>
         else if list_all (\<lambda>rule. rule_status rule \<noteq> Rule_pending) rules
         then d\<lparr>job_rules := rules, job_finished := job_finished job,
                     job_status := job_status job\<rparr>
         else d\<lparr>job_rules := rules\<rparr>)"
        have one: "listener db job = (updateJob db ?d', Resolved)"
          by (rule listener_terminal[OF Some ne ns Inr])
        have j: "job_id ?d' = job_id job" using id by simp
        have g: "getJob (updateJob db ?d') (job_id job) = Some ?d'"
          unfolding getJob_updateJob j using Some by simp
        have r: "job_rules ?d' = rules" by simp
        have again: "setRulesLoop (job_rules ?d') (job_rules job) = Inr rules"
          unfolding r by (rule setRulesLoop_idem[OF Inr])
        show ?thesis
        proof (cases "job_status job = Job_error")
          case True
          then have "job_status ?d' = Job_error" by simp
          from listener_error[OF g this] show ?thesis
            unfolding one fst_conv by simp
        next
          case je: False
          then have ne': "job_status ?d' \<noteq> Job_error" using ne by simp
          have same: "(if job_status job = Job_error
             then ?d'\<lparr>job_rules := rules, job_status := Job_error,
                     job_finished := job_finished job, job_error := job_error job\<rparr>
             else if list_all (\<lambda>rule. rule_status rule \<noteq> Rule_pending) rules
             then ?d'\<lparr>job_rules := rules, job_finished := job_finished job,
                     job_status := job_status job\<rparr>
             else ?d'\<lparr>job_rules := rules\<rparr>) = ?d'"
            using je by simp
          have two: "listener (updateJob db ?d') job = (updateJob (updateJob db ?d') ?d', Resolved)"
            unfolding listener_terminal[OF g ne' ns again] same ..
          show ?thesis
            unfolding one fst_conv two by (simp only: updateJob_updateJob)
        qed
      qed
    qed
  qed
qed


lemmas ex_defs = job0_def msgStarted_def msgAxe_def msgContentType_def msgError_def msgUnknown_def
lemmas sync_defs = listener_def listenerSeq_def getJob_def setRules_def setRule_def
  isJobFinished_def knownRules_def keepsDecided_def Let_def


lemma stepProps_error: "stepProps d d' \<Longrightarrow> job_status d = Job_error \<Longrightarrow> job_status d' = Job_error"
  by (simp add: stepProps_def)

lemma listener_error_message:
  assumes g: "getJob db (job_id job) = Some dbJob"
    and e: "job_status job = Job_error" and k: "knownRules dbJob job"
  shows "\<exists>dbJob'. getJob (fst (listener db job)) (job_id job) = Some dbJob' \<and>
           job_status dbJob' = Job_error"
proof (cases "job_status dbJob = Job_error")
  case True
  with g show ?thesis by (simp add: listener_error)
next
  case ne: False
  have ns: "job_status job \<noteq> Job_started" using e by simp
  have id: "job_id dbJob = job_id job" by (rule getJob_Some[OF g])
  from k have "\<not> (\<exists>e. setRulesLoop (job_rules dbJob) (job_rules job) = Inl e)"
    using knownRules_Inl[of dbJob job] by blast
  then obtain rules where r: "setRulesLoop (job_rules dbJob) (job_rules job) = Inr rules"
    by (cases "setRulesLoop (job_rules dbJob) (job_rules job)") auto
  show ?thesis
    unfolding listener_terminal[OF g ne ns r] using e g id
    by (simp add: getJob_updateJob)
qed

section \<open>Sync service: the claims\<close>

text \<open>
  C10. Every rule name carried by a terminal message must already be the name of a rule
  of the durable record. \<^verbatim>\<open>getRule\<close> gives \<^verbatim>\<open>undefined\<close> for a name the record does
  not have and \<^verbatim>\<open>setRules\<close> reads \<^verbatim>\<open>status\<close> of it without a guard: for a message
  with such a name \<^verbatim>\<open>setRules\<close> throws a \<^verbatim>\<open>TypeError\<close>, the listener rejects and the
  store is the one before the call (nothing is persisted). The listener reaches
  \<^verbatim>\<open>setRules\<close> when the record is there, its status is not \<^verbatim>\<open>error\<close> and the message
  is not a \<^verbatim>\<open>started\<close> message; with every name known the call resolves.
\<close>

theorem unknown_rule_throws:
  assumes "getJob db (job_id job) = Some dbJob"
    and "job_status dbJob \<noteq> Job_error" and "job_status job \<noteq> Job_started"
  shows "(\<forall>n. n \<notin> set (map rule_name (job_rules dbJob)) \<longrightarrow> getRule n (job_rules dbJob) = None) \<and>
         (\<not> knownRules dbJob job \<longrightarrow>
            setRules dbJob job = Inl TypeError \<and> listener db job = (db, Rejected TypeError)) \<and>
         (knownRules dbJob job \<longrightarrow>
            (\<exists>dbJob'. setRules dbJob job = Inr dbJob') \<and> snd (listener db job) = Resolved)"
proof (intro conjI impI allI)
  fix n assume "n \<notin> set (map rule_name (job_rules dbJob))"
  then show "getRule n (job_rules dbJob) = None" by (simp add: getRule_None)
next
  assume "\<not> knownRules dbJob job"
  then obtain e where e: "setRulesLoop (job_rules dbJob) (job_rules job) = Inl e"
    using knownRules_Inl[of dbJob job] by blast
  have t: "e = TypeError" by (rule setRulesLoop_TypeError[OF e])
  show "setRules dbJob job = Inl TypeError" using e t by (simp add: setRules_def)
  show "listener db job = (db, Rejected TypeError)"
    using listener_throws[OF assms e] t by simp
next
  assume "knownRules dbJob job"
  then have "\<not> (\<exists>e. setRulesLoop (job_rules dbJob) (job_rules job) = Inl e)"
    using knownRules_Inl[of dbJob job] by blast
  then obtain rules where r: "setRulesLoop (job_rules dbJob) (job_rules job) = Inr rules"
    by (cases "setRulesLoop (job_rules dbJob) (job_rules job)") auto
  show "\<exists>dbJob'. setRules dbJob job = Inr dbJob'" using r by (simp add: setRules_def)
  show "snd (listener db job) = Resolved"
    unfolding listener_terminal[OF assms r] by simp
qed

theorem unknown_rule_throws_witness:
  "getJob [job0] (job_id msgUnknown) = Some job0 \<and> job_status job0 \<noteq> Job_error \<and>
   job_status msgUnknown \<noteq> Job_started \<and> \<not> knownRules job0 msgUnknown \<and>
   getRule ''manifest-exists'' (job_rules job0) = None \<and>
   setRules job0 msgUnknown = Inl TypeError \<and>
   listener [job0] msgUnknown = ([job0], Rejected TypeError) \<and>
   knownRules job0 msgError \<and> snd (listener [job0] msgError) = Resolved"
proof -
  have a: "getJob [job0] (job_id msgUnknown) = Some job0" "job_status job0 \<noteq> Job_error"
      "job_status msgUnknown \<noteq> Job_started" "\<not> knownRules job0 msgUnknown"
    by (simp_all add: ex_defs getJob_def knownRules_def)
  have b: "getJob [job0] (job_id msgError) = Some job0" "job_status msgError \<noteq> Job_started"
      "knownRules job0 msgError"
    by (simp_all add: ex_defs getJob_def knownRules_def)
  have c: "''manifest-exists'' \<notin> set (map rule_name (job_rules job0))"
    by (simp add: ex_defs)
  show ?thesis
    using unknown_rule_throws[OF a(1,2,3)] unknown_rule_throws[OF b(1) a(2) b(2)] a b c
    by simp
qed

text \<open>
  C1 (amended). The terminal error is absorbing: a call of the listener for a record whose
  status is \<^verbatim>\<open>error\<close> leaves the store unchanged, whatever the message. It is dominating
  for messages whose rule names the record knows: merging an \<^verbatim>\<open>error\<close> message with
  known rule names leaves the record in status \<^verbatim>\<open>error\<close>, and so does any sequence of
  messages that contains such a message, wherever it stands in the sequence and whatever
  the other messages are. (An \<^verbatim>\<open>error\<close> message with a rule name the record does not
  have throws in \<^verbatim>\<open>setRules\<close> before the status is assigned.)
\<close>

theorem error_absorbing_dominating:
  assumes "getJob db (job_id job) = Some dbJob"
  shows "(job_status dbJob = Job_error \<longrightarrow> listener db job = (db, Resolved)) \<and>
         (job_status job = Job_error \<and> knownRules dbJob job \<longrightarrow>
            (\<exists>dbJob'. getJob (fst (listener db job)) (job_id job) = Some dbJob' \<and>
                      job_status dbJob' = Job_error)) \<and>
         (job \<in> set jobs \<and> job_status job = Job_error \<and> knownRules dbJob job \<longrightarrow>
            (\<exists>dbJob'. getJob (listenerSeq db jobs) (job_id job) = Some dbJob' \<and>
                      job_status dbJob' = Job_error))"
proof (intro conjI impI)
  assume "job_status dbJob = Job_error"
  with assms show "listener db job = (db, Resolved)" by (rule listener_error)
next
  assume "job_status job = Job_error \<and> knownRules dbJob job"
  then show "\<exists>dbJob'. getJob (fst (listener db job)) (job_id job) = Some dbJob' \<and>
                      job_status dbJob' = Job_error"
    using listener_error_message[OF assms] by blast
next
  assume a: "job \<in> set jobs \<and> job_status job = Job_error \<and> knownRules dbJob job"
  then obtain pre post where split: "jobs = pre @ job # post"
    by (auto dest: split_list)
  from listenerSeq_record[OF assms, of pre] obtain d1 where
    d1: "getJob (listenerSeq db pre) (job_id job) = Some d1" "stepProps dbJob d1" by blast
  have k1: "knownRules d1 job"
    using a d1(2) knownRules_names[of d1 dbJob job] by (simp add: stepProps_def)
  from listener_error_message[OF d1(1) _ k1] a obtain d2 where
    d2: "getJob (fst (listener (listenerSeq db pre) job)) (job_id job) = Some d2"
      "job_status d2 = Job_error" by blast
  from listenerSeq_record[OF d2(1), of post] obtain d3 where
    d3: "getJob (listenerSeq (fst (listener (listenerSeq db pre) job)) post) (job_id job) = Some d3"
      "stepProps d2 d3" by blast
  have "job_status d3 = Job_error" by (rule stepProps_error[OF d3(2) d2(2)])
  with d3(1) show "\<exists>dbJob'. getJob (listenerSeq db jobs) (job_id job) = Some dbJob' \<and>
                      job_status dbJob' = Job_error"
    unfolding split listenerSeq_append listenerSeq_Cons by blast
qed


theorem error_absorbing_dominating_witness:
  "getJob [job0] (job_id msgError) = Some job0 \<and> job_status msgError = Job_error \<and>
   knownRules job0 msgError \<and> msgError \<in> set [msgStarted, msgAxe, msgContentType, msgError] \<and>
   map_option job_status (getJob (fst (listener [job0] msgError)) 0) = Some Job_error \<and>
   map_option job_status (getJob (listenerSeq [job0] [msgAxe, msgContentType]) 0) = Some Job_finished \<and>
   map_option job_status (getJob (listenerSeq [job0] [msgStarted, msgAxe, msgContentType, msgError]) 0)
     = Some Job_error \<and>
   listener (fst (listener [job0] msgError)) msgAxe = (fst (listener [job0] msgError), Resolved)"
proof -
  have a: "getJob [job0] (job_id msgError) = Some job0" "job_status msgError = Job_error"
      "knownRules job0 msgError" "msgError \<in> set [msgStarted, msgAxe, msgContentType, msgError]"
      "job_id msgError = 0" "job_id msgAxe = 0"
    by (simp_all add: ex_defs getJob_def knownRules_def)
  have b: "map_option job_status (getJob (listenerSeq [job0] [msgAxe, msgContentType]) 0) = Some Job_finished"
    by (simp add: sync_defs ex_defs)
  have c: "fst (listener [job0] msgError) = [job0\<lparr>job_status := Job_error,
       job_rules := [\<lparr>rule_name = ''axe'', rule_status = Rule_pending, rule_messages = []\<rparr>,
                   \<lparr>rule_name = ''content-type'', rule_status = Rule_error,
                      rule_messages = [''Error running webhint'']\<rparr>],
       job_finished := Some 2500, job_error := Some ''Error running webhint''\<rparr>]" (is "_ = [?e]")
    by (simp add: sync_defs ex_defs)
  have d: "getJob [?e] (job_id msgAxe) = Some ?e" "job_status ?e = Job_error"
    by (simp_all add: getJob_def ex_defs)
  from error_absorbing_dominating[OF a(1), of "[msgStarted, msgAxe, msgContentType, msgError]"]
    error_absorbing_dominating[OF d(1), of "[]"] a b c d
  show ?thesis by auto
qed

text \<open>
  The claim C1 as it was stated fails for an \<^verbatim>\<open>error\<close> message that carries a rule the
  record does not have: the call rejects and the record stays \<^verbatim>\<open>pending\<close>.
\<close>

theorem error_message_unknown_rule_counterexample:
  "getJob [job0] (job_id msgUnknown) = Some job0 \<and> job_status job0 = Job_pending \<and>
   job_status msgUnknown = Job_error \<and>
   listener [job0] msgUnknown = ([job0], Rejected TypeError) \<and>
   map_option job_status (getJob (fst (listener [job0] msgUnknown)) (job_id msgUnknown)) = Some Job_pending"
  by (simp add: sync_defs ex_defs)

text \<open>
  C2. The merge is idempotent: calling the listener twice with the same message gives
  the same store, and the same completion, as calling it once. And once a rule of a
  durable record is not pending, no sequence of later calls changes its status or its
  messages; the rules of the record keep their names and their order.
\<close>

theorem merge_idempotent:
  "listener (fst (listener db job)) job = listener db job \<and>
   (\<forall>dbJob. getJob db i = Some dbJob \<longrightarrow>
      (\<exists>dbJob'. getJob (listenerSeq db jobs) i = Some dbJob' \<and> keepsDecided dbJob dbJob'))"
proof (intro conjI allI impI)
  show "listener (fst (listener db job)) job = listener db job" by (rule listener_idem)
next
  fix dbJob assume "getJob db i = Some dbJob"
  from listenerSeq_record[OF this, of jobs]
  show "\<exists>dbJob'. getJob (listenerSeq db jobs) i = Some dbJob' \<and> keepsDecided dbJob dbJob'"
    by (auto simp: stepProps_def)
qed


theorem merge_idempotent_witness:
  "getJob [job0] 0 = Some job0 \<and>
   listener [job0] msgAxe =
     ([job0\<lparr>job_rules := [\<lparr>rule_name = ''axe'', rule_status = Rule_warning, rule_messages = [''w1'']\<rparr>,
                   \<lparr>rule_name = ''content-type'', rule_status = Rule_pending, rule_messages = []\<rparr>]\<rparr>],
      Resolved) \<and>
   listener (fst (listener [job0] msgAxe)) msgAxe = listener [job0] msgAxe \<and>
   getJob (listenerSeq (fst (listener [job0] msgAxe)) [msgAxe, msgError, msgContentType]) 0 =
     Some (job0\<lparr>job_status := Job_error,
       job_rules := [\<lparr>rule_name = ''axe'', rule_status = Rule_warning, rule_messages = [''w1'']\<rparr>,
                   \<lparr>rule_name = ''content-type'', rule_status = Rule_error,
                      rule_messages = [''Error running webhint'']\<rparr>],
       job_finished := Some 2500, job_error := Some ''Error running webhint''\<rparr>) \<and>
   keepsDecided
     (job0\<lparr>job_rules := [\<lparr>rule_name = ''axe'', rule_status = Rule_warning, rule_messages = [''w1'']\<rparr>,
                   \<lparr>rule_name = ''content-type'', rule_status = Rule_pending, rule_messages = []\<rparr>]\<rparr>)
     (job0\<lparr>job_status := Job_error,
       job_rules := [\<lparr>rule_name = ''axe'', rule_status = Rule_warning, rule_messages = [''w1'']\<rparr>,
                   \<lparr>rule_name = ''content-type'', rule_status = Rule_error,
                      rule_messages = [''Error running webhint'']\<rparr>],
       job_finished := Some 2500, job_error := Some ''Error running webhint''\<rparr>)"
proof -
  let ?d1 = "job0\<lparr>job_rules := [\<lparr>rule_name = ''axe'', rule_status = Rule_warning, rule_messages = [''w1'']\<rparr>,
                   \<lparr>rule_name = ''content-type'', rule_status = Rule_pending, rule_messages = []\<rparr>]\<rparr>"
  have a: "getJob [job0] 0 = Some job0" by (simp add: getJob_def ex_defs)
  have b: "listener [job0] msgAxe = ([?d1], Resolved)"
    by (simp add: sync_defs ex_defs)
  have c: "getJob [?d1] 0 = Some ?d1" by (simp add: getJob_def ex_defs)
  have d: "getJob (listenerSeq [?d1] [msgAxe, msgError, msgContentType]) 0 =
     Some (job0\<lparr>job_status := Job_error,
       job_rules := [\<lparr>rule_name = ''axe'', rule_status = Rule_warning, rule_messages = [''w1'']\<rparr>,
                   \<lparr>rule_name = ''content-type'', rule_status = Rule_error,
                      rule_messages = [''Error running webhint'']\<rparr>],
       job_finished := Some 2500, job_error := Some ''Error running webhint''\<rparr>)"
    by (simp add: sync_defs ex_defs)
  from merge_idempotent[of "[job0]" msgAxe 0 "[]"]
    merge_idempotent[of "[?d1]" msgAxe 0 "[msgAxe, msgError, msgContentType]"] a b c d
  show ?thesis by simp
qed


text \<open>
  C3 (amended). A record that starts in status \<^verbatim>\<open>pending\<close> and is changed by any
  sequence of calls of the listener has status \<^verbatim>\<open>finished\<close> only if none of its rules
  is pending. A terminal message whose status is not \<^verbatim>\<open>error\<close> has its status and its
  \<^verbatim>\<open>finished\<close> time assigned exactly when no rule of the record is pending after
  \<^verbatim>\<open>setRules\<close>; otherwise the record only takes the rules. (The status of an
  \<^verbatim>\<open>error\<close> message is assigned whether rules are pending or not.)
\<close>

theorem finished_only_when_decided:
  assumes "getJob db i = Some dbJob0" and "job_status dbJob0 = Job_pending"
  shows "(\<exists>dbJob. getJob (listenerSeq db jobs) i = Some dbJob \<and>
            (job_status dbJob = Job_finished \<longrightarrow> isJobFinished dbJob)) \<and>
         (\<forall>dbJob dbJob1. getJob db' (job_id job) = Some dbJob \<and> job_status dbJob \<noteq> Job_error \<and>
            job_status job \<noteq> Job_started \<and> job_status job \<noteq> Job_error \<and>
            setRules dbJob job = Inr dbJob1 \<longrightarrow>
            getJob (fst (listener db' job)) (job_id job) =
              Some (if isJobFinished dbJob1
                    then dbJob1\<lparr>job_finished := job_finished job, job_status := job_status job\<rparr>
                    else dbJob1))"
proof (intro conjI allI impI)
  from listenerSeq_record[OF assms(1), of jobs] obtain d where
    d: "getJob (listenerSeq db jobs) i = Some d" "stepProps dbJob0 d" by blast
  have "job_status d = Job_finished \<longrightarrow> isJobFinished d"
    using d(2) assms(2) by (simp add: stepProps_def)
  with d(1) show "\<exists>dbJob. getJob (listenerSeq db jobs) i = Some dbJob \<and>
            (job_status dbJob = Job_finished \<longrightarrow> isJobFinished dbJob)" by blast
next
  fix dbJob dbJob1
  assume a: "getJob db' (job_id job) = Some dbJob \<and> job_status dbJob \<noteq> Job_error \<and>
            job_status job \<noteq> Job_started \<and> job_status job \<noteq> Job_error \<and>
            setRules dbJob job = Inr dbJob1"
  then have g: "getJob db' (job_id job) = Some dbJob" and ne: "job_status dbJob \<noteq> Job_error"
    and ns: "job_status job \<noteq> Job_started" and je: "job_status job \<noteq> Job_error"
    and sr: "setRules dbJob job = Inr dbJob1" by simp_all
  have id: "job_id dbJob = job_id job" by (rule getJob_Some[OF g])
  from sr obtain rules where r: "setRulesLoop (job_rules dbJob) (job_rules job) = Inr rules"
    and d1: "dbJob1 = dbJob\<lparr>job_rules := rules\<rparr>"
    by (auto simp: setRules_def split: sum.splits)
  show "getJob (fst (listener db' job)) (job_id job) =
              Some (if isJobFinished dbJob1
                    then dbJob1\<lparr>job_finished := job_finished job, job_status := job_status job\<rparr>
                    else dbJob1)"
    unfolding listener_terminal[OF g ne ns r] d1 using je g id
    by (simp add: getJob_updateJob isJobFinished_def)
qed

theorem finished_only_when_decided_witness:
  "getJob [job0] 0 = Some job0 \<and> job_status job0 = Job_pending \<and>
   map_option job_status (getJob (listenerSeq [job0] [msgStarted, msgAxe]) 0) = Some Job_started \<and>
   map_option isJobFinished (getJob (listenerSeq [job0] [msgStarted, msgAxe]) 0) = Some False \<and>
   map_option job_status (getJob (listenerSeq [job0] [msgStarted, msgAxe, msgContentType]) 0)
     = Some Job_finished \<and>
   map_option isJobFinished (getJob (listenerSeq [job0] [msgStarted, msgAxe, msgContentType]) 0)
     = Some True \<and>
   getJob [job0] (job_id msgAxe) = Some job0 \<and> job_status job0 \<noteq> Job_error \<and>
   job_status msgAxe \<noteq> Job_started \<and> job_status msgAxe \<noteq> Job_error \<and>
   setRules job0 msgAxe = Inr (job0\<lparr>job_rules :=
       [\<lparr>rule_name = ''axe'', rule_status = Rule_warning, rule_messages = [''w1'']\<rparr>,
        \<lparr>rule_name = ''content-type'', rule_status = Rule_pending, rule_messages = []\<rparr>]\<rparr>) \<and>
   getJob (fst (listener [job0] msgAxe)) (job_id msgAxe) = Some (job0\<lparr>job_rules :=
       [\<lparr>rule_name = ''axe'', rule_status = Rule_warning, rule_messages = [''w1'']\<rparr>,
        \<lparr>rule_name = ''content-type'', rule_status = Rule_pending, rule_messages = []\<rparr>]\<rparr>)"
proof -
  let ?d1 = "job0\<lparr>job_rules :=
       [\<lparr>rule_name = ''axe'', rule_status = Rule_warning, rule_messages = [''w1'']\<rparr>,
        \<lparr>rule_name = ''content-type'', rule_status = Rule_pending, rule_messages = []\<rparr>]\<rparr>"
  have a: "getJob [job0] 0 = Some job0" "job_status job0 = Job_pending" "job_id msgAxe = 0"
      "job_status msgAxe \<noteq> Job_started" "job_status msgAxe \<noteq> Job_error"
    by (simp_all add: getJob_def ex_defs)
  have b: "setRules job0 msgAxe = Inr ?d1" "\<not> isJobFinished ?d1"
    by (simp_all add: sync_defs ex_defs)
  have c: "map_option job_status (getJob (listenerSeq [job0] [msgStarted, msgAxe]) 0) = Some Job_started"
    "map_option isJobFinished (getJob (listenerSeq [job0] [msgStarted, msgAxe]) 0) = Some False"
    "map_option job_status (getJob (listenerSeq [job0] [msgStarted, msgAxe, msgContentType]) 0)
       = Some Job_finished"
    by (simp_all add: sync_defs ex_defs)
  from finished_only_when_decided[OF a(1,2), of "[msgStarted, msgAxe, msgContentType]" "[job0]" msgAxe]
    a b c
  show ?thesis by auto
qed

text \<open>
  The claim C3 as it was stated fails for the terminal status \<^verbatim>\<open>error\<close>: it is assigned
  while the rule \<^verbatim>\<open>axe\<close> of the record is still pending.
\<close>

theorem error_assigned_with_pending_rule_counterexample:
  "getJob [job0] (job_id msgError) = Some job0 \<and> job_status job0 = Job_pending \<and>
   job_status msgError = Job_error \<and>
   getJob (fst (listener [job0] msgError)) (job_id msgError) =
     Some (job0\<lparr>job_status := Job_error,
       job_rules := [\<lparr>rule_name = ''axe'', rule_status = Rule_pending, rule_messages = []\<rparr>,
                   \<lparr>rule_name = ''content-type'', rule_status = Rule_error,
                      rule_messages = [''Error running webhint'']\<rparr>],
       job_finished := Some 2500, job_error := Some ''Error running webhint''\<rparr>) \<and>
   \<not> isJobFinished (job0\<lparr>job_status := Job_error,
       job_rules := [\<lparr>rule_name = ''axe'', rule_status = Rule_pending, rule_messages = []\<rparr>,
                   \<lparr>rule_name = ''content-type'', rule_status = Rule_error,
                      rule_messages = [''Error running webhint'']\<rparr>],
       job_finished := Some 2500, job_error := Some ''Error running webhint''\<rparr>)"
  by (simp add: sync_defs ex_defs)

text \<open>
  C5 (amended). For a \<^verbatim>\<open>started\<close> message: a \<^verbatim>\<open>pending\<close> record takes the started
  time and the engine version of the message and moves to \<^verbatim>\<open>started\<close>; a record in
  status \<^verbatim>\<open>started\<close> or \<^verbatim>\<open>error\<close> is left as it is; a \<^verbatim>\<open>finished\<close> record
  keeps its status and every field but the started time and the engine version, and
  takes these two from the message when it has no started time yet (the terminal
  message was merged before the \<^verbatim>\<open>started\<close> message).
\<close>

theorem started_message:
  assumes "getJob db (job_id job) = Some dbJob" and "job_status job = Job_started"
  shows "\<exists>dbJob'. getJob (fst (listener db job)) (job_id job) = Some dbJob' \<and>
     (job_status dbJob = Job_pending \<longrightarrow>
        dbJob' = dbJob\<lparr>job_started := job_started job, job_sonarVersion := job_sonarVersion job,
                        job_status := Job_started\<rparr>) \<and>
     (job_status dbJob = Job_started \<or> job_status dbJob = Job_error \<longrightarrow> dbJob' = dbJob) \<and>
     (job_status dbJob = Job_finished \<longrightarrow>
        dbJob' = dbJob\<lparr>job_started := job_started dbJob', job_sonarVersion := job_sonarVersion dbJob'\<rparr> \<and>
        (job_started dbJob = None \<longrightarrow>
           job_started dbJob' = job_started job \<and> job_sonarVersion dbJob' = job_sonarVersion job))"
proof (cases "job_status dbJob = Job_error")
  case True
  with assms(1) show ?thesis by (simp add: listener_error)
next
  case ne: False
  have id: "job_id dbJob = job_id job" by (rule getJob_Some[OF assms(1)])
  show ?thesis
    unfolding listener_started[OF assms(1) ne assms(2)]
    using assms(1) id ne by (cases "job_status dbJob") (simp_all add: getJob_updateJob)
qed

theorem started_message_witness:
  "getJob [job0] (job_id msgStarted) = Some job0 \<and> job_status msgStarted = Job_started \<and>
   job_status job0 = Job_pending \<and>
   getJob (fst (listener [job0] msgStarted)) (job_id msgStarted) =
     Some (job0\<lparr>job_started := Some 1000, job_sonarVersion := Some ''1.0'',
                 job_status := Job_started\<rparr>) \<and>
   listener (fst (listener [job0] msgStarted)) (msgStarted\<lparr>job_part := 2, job_started := Some 1100\<rparr>) =
     (fst (listener [job0] msgStarted), Resolved)"
proof -
  have a: "getJob [job0] (job_id msgStarted) = Some job0" "job_status msgStarted = Job_started"
     "job_status job0 = Job_pending" "job_started msgStarted = Some 1000"
     "job_sonarVersion msgStarted = Some ''1.0''"
    by (simp_all add: getJob_def ex_defs)
  have b: "listener (fst (listener [job0] msgStarted)) (msgStarted\<lparr>job_part := 2, job_started := Some 1100\<rparr>) =
     (fst (listener [job0] msgStarted), Resolved)"
    by (simp add: sync_defs ex_defs)
  from started_message[OF a(1,2)] a b show ?thesis by auto
qed

text \<open>
  The claim C5 as it was stated fails for a \<^verbatim>\<open>finished\<close> record: when the terminal
  messages were merged first, the record is \<^verbatim>\<open>finished\<close> with no started time, and the
  \<^verbatim>\<open>started\<close> message that comes after them sets the started time and the version.
\<close>

theorem started_after_finished_counterexample:
  "map_option job_status (getJob (listenerSeq [job0] [msgAxe, msgContentType]) 0) = Some Job_finished \<and>
   map_option job_started (getJob (listenerSeq [job0] [msgAxe, msgContentType]) 0) = Some None \<and>
   map_option job_sonarVersion (getJob (listenerSeq [job0] [msgAxe, msgContentType]) 0) = Some None \<and>
   job_status msgStarted = Job_started \<and>
   map_option job_started (getJob (listenerSeq [job0] [msgAxe, msgContentType, msgStarted]) 0)
     = Some (Some 1000) \<and>
   map_option job_sonarVersion (getJob (listenerSeq [job0] [msgAxe, msgContentType, msgStarted]) 0)
     = Some (Some ''1.0'') \<and>
   map_option job_status (getJob (listenerSeq [job0] [msgAxe, msgContentType, msgStarted]) 0)
     = Some Job_finished"
  by (simp add: sync_defs ex_defs)

section \<open>Worker service: lemmas on the emission\<close>

lemma collapse_keeps: "hint_name (collapse h) = hint_name h" "hint_status (collapse h) = hint_status h"
  "hint_messages (collapse h) = [tooManyErrors]"
  by (simp_all add: collapse_def)

lemma collapseAt_fields:
  "sub_status (collapseAt i m) = sub_status m" "sub_error (collapseAt i m) = sub_error m"
  "sub_id (collapseAt i m) = sub_id m" "sub_started (collapseAt i m) = sub_started m"
  "sub_finished (collapseAt i m) = sub_finished m"
  "(collapseAt i m)\<lparr>sub_hints := sub_hints m\<rparr> = m"
  by (simp_all add: collapseAt_def)

lemma collapseAt_hints:
  "hintStatuses (sub_hints (collapseAt i m)) = hintStatuses (sub_hints m)"
proof (cases "i < length (sub_hints m)")
  case True
  then have "(map (\<lambda>h. (hint_name h, hint_status h)) (sub_hints m))
               [i := (hint_name (sub_hints m ! i), hint_status (sub_hints m ! i))] =
             map (\<lambda>h. (hint_name h, hint_status h)) (sub_hints m)"
    by (simp add: list_update_same_conv)
  with True show ?thesis by (simp add: collapseAt_def map_update collapse_keeps hintStatuses_def)
next
  case False
  then show ?thesis by (simp add: collapseAt_def)
qed

lemma variant_fields:
  assumes "variant E m m'"
  shows "sub_status m' = sub_status m" "sub_error m' = sub_error m" "sub_id m' = sub_id m"
    "hintStatuses (sub_hints m') = hintStatuses (sub_hints m)"
  using assms unfolding variant_def by (auto simp: collapseAt_fields collapseAt_hints)







lemma answer_cases:
  "answer [] = (SendOk, [])" "answer (r # bus) = (r, bus)"
  by (simp_all add: answer_def)

lemma sendMessage_calls:
  "sendMessage E n bus m = (log, bus', ok) \<Longrightarrow> \<forall>c\<in>set log. variant E m (fst c)"
proof (induction n arbitrary: bus log bus' ok)
  case 0
  then show ?case by simp
next
  case (Suc n)
  obtain r bus1 where a: "answer bus = (r, bus1)" by (cases "answer bus")
  show ?case
  proof (cases r)
    case SendOk
    with Suc.prems a show ?thesis by (auto simp: variant_def)
  next
    case Oversize
    obtain r' bus2 where b: "answer bus1 = (r', bus2)" by (cases "answer bus1")
    with Suc.prems a Oversize show ?thesis by (auto simp: variant_def Let_def)
  next
    case Transient
    obtain l b2 o2 where c: "sendMessage E n bus1 m = (l, b2, o2)"
      by (cases "sendMessage E n bus1 m")
    from Suc.IH[OF c] Suc.prems a Transient c show ?thesis by (auto simp: variant_def)
  next
    case Fatal
    with Suc.prems a show ?thesis by (auto simp: variant_def)
  qed
qed

lemma sendMessage_delivered:
  "sendMessage E n bus m = (log, bus', ok) \<Longrightarrow>
   (ok \<longrightarrow> complete log \<and> (\<exists>m'. delivered log = [m'] \<and> variant E m m')) \<and>
   (\<not> ok \<longrightarrow> \<not> complete log \<and> delivered log = [])"
proof (induction n arbitrary: bus log bus' ok)
  case 0
  then show ?case by (simp add: complete_def delivered_def)
next
  case (Suc n)
  obtain r bus1 where a: "answer bus = (r, bus1)" by (cases "answer bus")
  show ?case
  proof (cases r)
    case SendOk
    with Suc.prems a show ?thesis by (auto simp: variant_def complete_def delivered_def)
  next
    case Oversize
    obtain r' bus2 where b: "answer bus1 = (r', bus2)" by (cases "answer bus1")
    with Suc.prems a Oversize show ?thesis
      by (auto simp: variant_def Let_def complete_def delivered_def)
  next
    case Transient
    obtain l b2 o2 where c: "sendMessage E n bus1 m = (l, b2, o2)"
      by (cases "sendMessage E n bus1 m")
    from Suc.prems a Transient c have l: "log = (m, Transient) # l" "ok = o2" by auto
    have d: "delivered log = delivered l" by (simp add: l delivered_def)
    have e: "complete log = complete l" by (cases l) (simp_all add: l complete_def)
    from Suc.IH[OF c] show ?thesis unfolding d e l(2) .
  next
    case Fatal
    with Suc.prems a show ?thesis by (auto simp: complete_def delivered_def)
  qed
qed

lemma sendMessage_nonempty:
  "sendMessage E (Suc n) bus m = (log, bus', ok) \<Longrightarrow> log \<noteq> []"
  by (cases "answer bus"; cases "fst (answer bus)"; cases "answer (snd (answer bus))";
      cases "sendMessage E n (snd (answer bus)) m")
     (auto simp: Let_def)

lemma delivered_append: "delivered (a @ b) = delivered a @ delivered b"
  by (simp add: delivered_def)

lemma complete_append: "b \<noteq> [] \<Longrightarrow> complete (a @ b) = complete b"
  by (simp add: complete_def)

lemma sendAll_nonempty: "ms \<noteq> [] \<Longrightarrow> sendAll E bus ms \<noteq> []"
proof (cases ms)
  case Nil then show "ms \<noteq> [] \<Longrightarrow> ?thesis" by simp
next
  case (Cons m rest)
  obtain l b acc where c: "sendMessage E (Suc (retries E)) bus m = (l, b, acc)"
    by (cases "sendMessage E (Suc (retries E)) bus m")
  from sendMessage_nonempty[OF c] c Cons show ?thesis by (simp del: sendMessage.simps)
qed

lemma sendAll_calls:
  "\<forall>c\<in>set (sendAll E bus ms). \<exists>m\<in>set ms. variant E m (fst c)"
proof (induction ms arbitrary: bus)
  case Nil then show ?case by simp
next
  case (Cons m rest)
  obtain l b acc where c: "sendMessage E (Suc (retries E)) bus m = (l, b, acc)"
    by (cases "sendMessage E (Suc (retries E)) bus m")
  from sendMessage_calls[OF c] Cons.IH[of b] c show ?case
    by (auto simp del: sendMessage.simps)
qed

lemma sendAll_delivered:
  "list_all2 (variant E) (take (length (delivered (sendAll E bus ms))) ms) (delivered (sendAll E bus ms)) \<and>
   (complete (sendAll E bus ms) \<longrightarrow> length (delivered (sendAll E bus ms)) = length ms)"
proof (induction ms arbitrary: bus)
  case Nil then show ?case by (simp add: delivered_def)
next
  case (Cons m rest)
  obtain l b acc where c: "sendMessage E (Suc (retries E)) bus m = (l, b, acc)"
    by (cases "sendMessage E (Suc (retries E)) bus m")
  note d = sendMessage_delivered[OF c]
  show ?case
  proof (cases acc)
    case False
    with c d show ?thesis by (simp del: sendMessage.simps)
  next
    case True
    with d obtain m' where m': "delivered l = [m']" "variant E m m'" "complete l" by auto
    have s: "sendAll E bus (m # rest) = l @ sendAll E b rest"
      using c True by (simp del: sendMessage.simps)
    show ?thesis
    proof (cases "rest = []")
      case True
      with s m' show ?thesis by (simp add: delivered_append delivered_def)
    next
      case False
      have ne: "sendAll E b rest \<noteq> []" by (rule sendAll_nonempty[OF False])
      from Cons.IH[of b] m' show ?thesis
        unfolding s delivered_append complete_append[OF ne] by simp
    qed
  qed
qed


section \<open>Worker service: lemmas on the packages\<close>

lemma place_nonempty: "place E m h gs \<noteq> []"
  by (induction gs) auto

lemma place_mset: "mset (concat (place E m h gs)) = add_mset h (mset (concat gs))"
  by (induction gs) auto

lemma partitionHints_mset_aux:
  "mset (concat (foldl (\<lambda>gs h. place E m h gs) gs0 hs)) = mset hs + mset (concat gs0)"
  by (induction hs arbitrary: gs0) (auto simp: place_mset)

lemma partitionHints_mset: "mset (concat (partitionHints E m hs)) = mset hs"
  by (simp add: partitionHints_def partitionHints_mset_aux)

lemma partitionHints_nonempty: "hs \<noteq> [] \<Longrightarrow> partitionHints E m hs \<noteq> []"
proof -
  assume "hs \<noteq> []"
  then have "mset (concat (partitionHints E m hs)) \<noteq> {#}" by (simp add: partitionHints_mset)
  then show ?thesis by auto
qed

lemma collapsed_empty: "sub_hints m = [] \<Longrightarrow> collapsed E m = m"
  by (simp add: collapsed_def)

lemma packages_fields:
  "p \<in> set (packages E m) \<Longrightarrow> p\<lparr>sub_hints := sub_hints m\<rparr> = m"
  by (auto simp: packages_def collapsed_def split: if_splits)

lemma packages_status:
  assumes "p \<in> set (packages E m)"
  shows "sub_status p = sub_status m" "sub_error p = sub_error m" "sub_id p = sub_id m"
  using arg_cong[OF packages_fields[OF assms], of sub_status]
    arg_cong[OF packages_fields[OF assms], of sub_error]
    arg_cong[OF packages_fields[OF assms], of sub_id] by simp_all

lemma packages_fits:
  "messageSize E (collapsed E m) \<le> maxMessageSize E \<Longrightarrow> packages E m = [collapsed E m]"
  by (simp add: packages_def)

lemma packages_nonempty:
  assumes "sub_hints m = [] \<longrightarrow> messageSize E m \<le> maxMessageSize E"
  shows "packages E m \<noteq> []"
proof (cases "sub_hints m = []")
  case True
  with assms show ?thesis by (simp add: packages_def collapsed_empty)
next
  case False
  then have "sub_hints (collapsed E m) \<noteq> []" by (simp add: collapsed_def)
  then show ?thesis by (simp add: packages_def partitionHints_nonempty)
qed

lemma packages_hints:
  "mset (concat (map sub_hints (packages E m))) = mset (map (collapseOversized E) (sub_hints m))"
proof -
  have c: "concat (map sub_hints (map (\<lambda>g. m'\<lparr>sub_hints := g\<rparr>) gs)) = concat gs" for gs m'
    by (induction gs) auto
  have h: "sub_hints (collapsed E m) = map (collapseOversized E) (sub_hints m)"
    by (simp add: collapsed_def)
  show ?thesis
  proof (cases "messageSize E (collapsed E m) \<le> maxMessageSize E")
    case True
    then show ?thesis by (simp add: packages_fits h)
  next
    case False
    then have "packages E m = map (\<lambda>g. (collapsed E m)\<lparr>sub_hints := g\<rparr>)
        (partitionHints E (collapsed E m) (sub_hints (collapsed E m)))"
      by (simp add: packages_def)
    then show ?thesis by (simp only: c partitionHints_mset h)
  qed
qed


section \<open>Worker service: lemmas on the processing of a sub-job\<close>

lemma terminalMessage_status:
  "sub_status (terminalMessage E t s ev) \<in> {Job_finished, Job_error}"
  by (cases ev) (simp_all add: failedMessage_def timeoutMessage_def)

lemma collapseOversized_statuses:
  "hintStatuses (map (collapseOversized E) hs) = hintStatuses hs"
  by (induction hs) (auto simp: hintStatuses_def collapseOversized_def collapse_keeps)

lemma packages_statuses:
  "mset (hintStatuses (concat (map sub_hints (packages E m)))) = mset (hintStatuses (sub_hints m))"
proof -
  have img: "mset (hintStatuses xs) = image_mset (\<lambda>h. (hint_name h, hint_status h)) (mset xs)" for xs
    by (simp add: hintStatuses_def)
  have "mset (hintStatuses (concat (map sub_hints (packages E m))))
        = mset (hintStatuses (map (collapseOversized E) (sub_hints m)))"
    unfolding img packages_hints by (rule refl)
  also have "\<dots> = mset (hintStatuses (sub_hints m))"
    by (simp only: collapseOversized_statuses)
  finally show ?thesis .
qed

lemma variants_statuses:
  "list_all2 (variant E) ps ts \<Longrightarrow>
   hintStatuses (concat (map sub_hints ts)) = hintStatuses (concat (map sub_hints ps))"
proof (induction rule: list_all2_induct)
  case Nil then show ?case by simp
next
  case (Cons p ps t ts)
  from variant_fields(4)[OF Cons.hyps(1)] Cons.IH show ?case
    by (simp add: hintStatuses_def)
qed

lemma variants_field:
  "list_all2 (variant E) ps ts \<Longrightarrow> \<forall>p\<in>set ps. sub_status p = st \<Longrightarrow> \<forall>t\<in>set ts. sub_status t = st"
proof (induction rule: list_all2_induct)
  case Nil then show ?case by simp
next
  case (Cons p ps t ts)
  from variant_fields(1)[OF Cons.hyps(1)] Cons show ?case by simp
qed

text \<open>What is on the queue after a complete run: the started message and the packages.\<close>

lemma process_complete:
  assumes "complete (process E bus t0 t1 s ev)"
  shows "\<exists>m0. delivered (process E bus t0 t1 s ev) = m0 # terminals (process E bus t0 t1 s ev) \<and>
           variant E (startedMessage t0 s) m0 \<and>
           list_all2 (variant E) (packages E (terminalMessage E t1 (startedMessage t0 s) ev))
             (terminals (process E bus t0 t1 s ev))"
proof -
  let ?T = "terminalMessage E t1 (startedMessage t0 s) ev"
  let ?ms = "startedMessage t0 s # packages E ?T"
  let ?log = "process E bus t0 t1 s ev"
  have log: "?log = sendAll E bus ?ms" by (simp add: process_def)
  from sendAll_delivered[of E bus ?ms] assms
  have len: "length (delivered ?log) = length ?ms"
    and all: "list_all2 (variant E) ?ms (delivered ?log)"
    unfolding log by auto
  from all obtain m0 ts where d: "delivered ?log = m0 # ts" "variant E (startedMessage t0 s) m0"
      "list_all2 (variant E) (packages E ?T) ts"
    by (auto simp: list_all2_Cons1)
  have st0: "sub_status m0 = Job_started"
    using variant_fields(1)[OF d(2)] by (simp add: startedMessage_def)
  have "\<forall>p\<in>set (packages E ?T). sub_status p = sub_status ?T"
    by (simp add: packages_status)
  from variants_field[OF d(3) this] have "\<forall>t\<in>set ts. sub_status t \<noteq> Job_started"
    using terminalMessage_status[of E t1 "startedMessage t0 s" ev] by auto
  then have "terminals ?log = ts"
    unfolding terminals_def d(1) using st0 by (simp add: filter_id_conv)
  with d show ?thesis by simp
qed

text \<open>Every call made for a sub-job sends the started message or one of the packages.\<close>

lemma process_calls:
  "\<forall>m\<in>set (terminalCalls (process E bus t0 t1 s ev)).
     \<exists>p\<in>set (packages E (terminalMessage E t1 (startedMessage t0 s) ev)). variant E p m"
proof
  fix m assume "m \<in> set (terminalCalls (process E bus t0 t1 s ev))"
  then obtain c where c: "c \<in> set (process E bus t0 t1 s ev)" "fst c = m"
      "sub_status m \<noteq> Job_started"
    by (auto simp: terminalCalls_def)
  from sendAll_calls[of E bus] c(1) obtain p where
    p: "p = startedMessage t0 s \<or> p \<in> set (packages E (terminalMessage E t1 (startedMessage t0 s) ev))"
      "variant E p (fst c)"
    unfolding process_def by fastforce
  have "p \<noteq> startedMessage t0 s"
    using variant_fields(1)[OF p(2)] c(2,3) by (auto simp: startedMessage_def)
  with p c(2) show "\<exists>p\<in>set (packages E (terminalMessage E t1 (startedMessage t0 s) ev)). variant E p m"
    by auto
qed


lemmas worker_defs = process_def packages_def collapsed_def partitionHints_def
  collapseOversized_def collapse_def collapseAt_def offender_def answer_def startedMessage_def
  failedMessage_def timeoutMessage_def errorHint_def
  passPending_def delivered_def complete_def terminals_def terminalCalls_def hintStatuses_def
  variant_def tooManyErrors_def Let_def
lemmas worker_ex_defs = exEnv_def envelopeEnv_def exResolve_def exSize_def pendingHint_def
  problem_def subJob_def
  jobHappy_def jobEmpty_def jobError_def job413_def jobTwo_def lipsum_def

lemma sendMessage_answers:
  assumes "0 < n"
  shows "sendMessage E n [] m = ([(m, SendOk)], [], True)"
    and "sendMessage E n (SendOk # bus) m = ([(m, SendOk)], bus, True)"
    and "sendMessage E n (Fatal # bus) m = ([(m, Fatal)], bus, False)"
    and "sendMessage E n (Oversize # bus) m =
           ([(m, Oversize), (collapseAt (offender E m) m, fst (answer bus))],
            snd (answer bus), fst (answer bus) = SendOk)"
    and "sendMessage E n (Transient # bus) m =
           (case sendMessage E (n - 1) bus m of (log, b, ok) \<Rightarrow> ((m, Transient) # log, b, ok))"
proof -
  from assms obtain k where n: "n = Suc k" by (cases n) auto
  show "sendMessage E n [] m = ([(m, SendOk)], [], True)"
    and "sendMessage E n (SendOk # bus) m = ([(m, SendOk)], bus, True)"
    and "sendMessage E n (Fatal # bus) m = ([(m, Fatal)], bus, False)"
    and "sendMessage E n (Transient # bus) m =
           (case sendMessage E (n - 1) bus m of (log, b, ok) \<Rightarrow> ((m, Transient) # log, b, ok))"
    unfolding n by (simp_all add: answer_def)
  show "sendMessage E n (Oversize # bus) m =
           ([(m, Oversize), (collapseAt (offender E m) m, fst (answer bus))],
            snd (answer bus), fst (answer bus) = SendOk)"
    unfolding n by (cases "answer bus") (simp add: answer_cases)
qed

lemmas worker_eval = sendMessage_answers sendAll.simps




lemma process_call_fields:
  assumes "m \<in> set (terminalCalls (process E bus t0 t1 s ev))"
  shows "sub_status m = sub_status (terminalMessage E t1 (startedMessage t0 s) ev)"
    and "sub_error m = sub_error (terminalMessage E t1 (startedMessage t0 s) ev)"
    and "set (hintStatuses (sub_hints m)) \<subseteq>
         set (hintStatuses (sub_hints (terminalMessage E t1 (startedMessage t0 s) ev)))"
proof -
  let ?T = "terminalMessage E t1 (startedMessage t0 s) ev"
  from process_calls[of E bus t0 t1 s ev] assms obtain p where
    p: "p \<in> set (packages E ?T)" "variant E p m" by blast
  show "sub_status m = sub_status ?T"
    using variant_fields(1)[OF p(2)] packages_status(1)[OF p(1)] by simp
  show "sub_error m = sub_error ?T"
    using variant_fields(2)[OF p(2)] packages_status(2)[OF p(1)] by simp
  have "set (hintStatuses (sub_hints p)) \<subseteq> set (hintStatuses (concat (map sub_hints (packages E ?T))))"
    using p(1) by (auto simp: hintStatuses_def)
  also have "\<dots> = set_mset (mset (hintStatuses (concat (map sub_hints (packages E ?T)))))"
    by simp
  also have "\<dots> = set (hintStatuses (sub_hints ?T))"
    unfolding packages_statuses by simp
  finally show "set (hintStatuses (sub_hints m)) \<subseteq> set (hintStatuses (sub_hints ?T))"
    using variant_fields(4)[OF p(2)] by simp
qed

lemma process_terminal_statuses:
  assumes "complete (process E bus t0 t1 s ev)"
  shows "mset (hintStatuses (concat (map sub_hints (terminals (process E bus t0 t1 s ev))))) =
         mset (hintStatuses (sub_hints (terminalMessage E t1 (startedMessage t0 s) ev)))"
proof -
  from process_complete[OF assms] have
    "list_all2 (variant E) (packages E (terminalMessage E t1 (startedMessage t0 s) ev))
       (terminals (process E bus t0 t1 s ev))" by blast
  from variants_statuses[OF this] show ?thesis by (simp add: packages_statuses)
qed






section \<open>Worker service: the claims\<close>




text \<open>
  C6. When the child reports \<^verbatim>\<open>{ok: false, error}\<close>, the terminal message has status
  \<^verbatim>\<open>error\<close> and carries the error, and its hints are those of the sub-job, each
  treated as follows: a hint the bundle does not mention is unchanged (a pending one stays
  pending); a hint set to the literal \<^verbatim>\<open>"off"\<close> or to a tuple starting with
  \<^verbatim>\<open>"off"\<close> is marked \<^verbatim>\<open>off\<close>; any other mentioned hint is marked \<^verbatim>\<open>error\<close> with one
  message carrying the error text. Every terminal message the worker sends then has
  status \<^verbatim>\<open>error\<close>, that error, and hints with these statuses; and when no emission is
  given up, the hints on the queue are, with their statuses, exactly those hints.
\<close>

theorem error_case_marks_hints:
  "sub_status (terminalMessage E t1 (startedMessage t0 s) (ChildFailed e)) = Job_error \<and>
   sub_error (terminalMessage E t1 (startedMessage t0 s) (ChildFailed e)) = Some e \<and>
   sub_hints (terminalMessage E t1 (startedMessage t0 s) (ChildFailed e)) =
     map (errorHint (sub_config s) e) (sub_hints s) \<and>
   hint_name (errorHint cfg e h) = hint_name h \<and>
   (map_of cfg (hint_name h) = None \<longrightarrow> errorHint cfg e h = h) \<and>
   (\<forall>c. map_of cfg (hint_name h) = Some c \<and> (c = Literal ''off'' \<or> c = Tuple ''off'') \<longrightarrow>
        errorHint cfg e h = h\<lparr>hint_status := Hint_off\<rparr>) \<and>
   (\<forall>c. map_of cfg (hint_name h) = Some c \<and> c \<noteq> Literal ''off'' \<and> c \<noteq> Tuple ''off'' \<longrightarrow>
        hint_status (errorHint cfg e h) = Hint_error \<and>
        map problem_message (hint_messages (errorHint cfg e h)) = [errorText e]) \<and>
   (\<forall>m\<in>set (terminalCalls (process E bus t0 t1 s (ChildFailed e))).
        sub_status m = Job_error \<and> sub_error m = Some e \<and>
        set (hintStatuses (sub_hints m)) \<subseteq>
          set (hintStatuses (map (errorHint (sub_config s) e) (sub_hints s)))) \<and>
   (complete (process E bus t0 t1 s (ChildFailed e)) \<longrightarrow>
        mset (hintStatuses (concat (map sub_hints (terminals (process E bus t0 t1 s (ChildFailed e)))))) =
        mset (hintStatuses (map (errorHint (sub_config s) e) (sub_hints s))))"
proof -
  have off: "isOff c \<longleftrightarrow> c = Literal ''off'' \<or> c = Tuple ''off''" for c
    by (cases c) simp_all
  have T: "sub_status (terminalMessage E t1 (startedMessage t0 s) (ChildFailed e)) = Job_error"
    "sub_error (terminalMessage E t1 (startedMessage t0 s) (ChildFailed e)) = Some e"
    "sub_hints (terminalMessage E t1 (startedMessage t0 s) (ChildFailed e)) =
       map (errorHint (sub_config s) e) (sub_hints s)"
    by (simp_all add: failedMessage_def startedMessage_def)
  have h: "hint_name (errorHint cfg e h) = hint_name h"
    "map_of cfg (hint_name h) = None \<longrightarrow> errorHint cfg e h = h"
    "\<forall>c. map_of cfg (hint_name h) = Some c \<and> (c = Literal ''off'' \<or> c = Tuple ''off'') \<longrightarrow>
        errorHint cfg e h = h\<lparr>hint_status := Hint_off\<rparr>"
    "\<forall>c. map_of cfg (hint_name h) = Some c \<and> c \<noteq> Literal ''off'' \<and> c \<noteq> Tuple ''off'' \<longrightarrow>
        hint_status (errorHint cfg e h) = Hint_error \<and>
        map problem_message (hint_messages (errorHint cfg e h)) = [errorText e]"
    by (auto simp: errorHint_def off split: option.splits)
  have calls: "\<forall>m\<in>set (terminalCalls (process E bus t0 t1 s (ChildFailed e))).
        sub_status m = Job_error \<and> sub_error m = Some e \<and>
        set (hintStatuses (sub_hints m)) \<subseteq>
          set (hintStatuses (map (errorHint (sub_config s) e) (sub_hints s)))"
    using process_call_fields[of _ E bus t0 t1 s "ChildFailed e"] unfolding T by blast
  have queue: "complete (process E bus t0 t1 s (ChildFailed e)) \<longrightarrow>
        mset (hintStatuses (concat (map sub_hints (terminals (process E bus t0 t1 s (ChildFailed e)))))) =
        mset (hintStatuses (map (errorHint (sub_config s) e) (sub_hints s)))"
    using process_terminal_statuses[of E bus t0 t1 s "ChildFailed e"] unfolding T by blast
  from T h calls queue show ?thesis by blast
qed


theorem error_case_marks_hints_witness:
  "map_of (sub_config jobError) (hint_name (pendingHint ''manifest-exists'')) = None \<and>
   map_of (sub_config jobError) (hint_name (pendingHint ''disown-opener'')) = Some (Tuple ''off'') \<and>
   map_of (sub_config jobError) (hint_name (pendingHint ''axe'')) = Some (Literal ''warning'') \<and>
   errorHint (sub_config jobError) (ErrorText ''Error running webhint'') (pendingHint ''manifest-exists'')
     = pendingHint ''manifest-exists'' \<and>
   hint_status (errorHint (sub_config jobError) (ErrorText ''Error running webhint'')
     (pendingHint ''disown-opener'')) = Hint_off \<and>
   hint_status (errorHint (sub_config jobError) (ErrorText ''Error running webhint'')
     (pendingHint ''axe'')) = Hint_error \<and>
   map problem_message (hint_messages (errorHint (sub_config jobError)
     (ErrorText ''Error running webhint'') (pendingHint ''axe''))) = [''Error running webhint''] \<and>
   complete (process exEnv [] 10 20 jobError (ChildFailed (ErrorText ''Error running webhint''))) \<and>
   map (\<lambda>c. (sub_status (fst c), sub_error (fst c), hintStatuses (sub_hints (fst c)), snd c))
     (process exEnv [] 10 20 jobError (ChildFailed (ErrorText ''Error running webhint''))) =
     [(Job_started, None,
       [(''axe'', Hint_pending), (''content-type'', Hint_pending), (''disown-opener'', Hint_pending),
        (''manifest-exists'', Hint_pending)], SendOk),
      (Job_error, Some (ErrorText ''Error running webhint''),
       [(''axe'', Hint_error), (''content-type'', Hint_error), (''disown-opener'', Hint_off),
        (''manifest-exists'', Hint_pending)], SendOk)] \<and>
   mset (hintStatuses (concat (map sub_hints (terminals
     (process exEnv [] 10 20 jobError (ChildFailed (ErrorText ''Error running webhint''))))))) =
   mset [(''axe'', Hint_error), (''content-type'', Hint_error), (''disown-opener'', Hint_off),
         (''manifest-exists'', Hint_pending)]"
proof -
  let ?e = "ErrorText ''Error running webhint''"
  have a: "map_of (sub_config jobError) (hint_name (pendingHint ''manifest-exists'')) = None"
    "map_of (sub_config jobError) (hint_name (pendingHint ''disown-opener'')) = Some (Tuple ''off'')"
    "map_of (sub_config jobError) (hint_name (pendingHint ''axe'')) = Some (Literal ''warning'')"
    by (simp_all add: worker_ex_defs)
  have b: "complete (process exEnv [] 10 20 jobError (ChildFailed ?e))"
    "map (\<lambda>c. (sub_status (fst c), sub_error (fst c), hintStatuses (sub_hints (fst c)), snd c))
     (process exEnv [] 10 20 jobError (ChildFailed ?e)) =
     [(Job_started, None,
       [(''axe'', Hint_pending), (''content-type'', Hint_pending), (''disown-opener'', Hint_pending),
        (''manifest-exists'', Hint_pending)], SendOk),
      (Job_error, Some ?e,
       [(''axe'', Hint_error), (''content-type'', Hint_error), (''disown-opener'', Hint_off),
        (''manifest-exists'', Hint_pending)], SendOk)]"
    by (simp_all add: worker_defs worker_ex_defs worker_eval del: sendMessage.simps(2))
  have c: "hintStatuses (map (errorHint (sub_config jobError) ?e) (sub_hints jobError)) =
      [(''axe'', Hint_error), (''content-type'', Hint_error), (''disown-opener'', Hint_off),
       (''manifest-exists'', Hint_pending)]"
    by (simp add: worker_defs worker_ex_defs)
  have d: "hint_status (pendingHint ''disown-opener'') = Hint_pending"
    "hint_status ((pendingHint ''disown-opener'')\<lparr>hint_status := Hint_off\<rparr>) = Hint_off"
    "errorText ?e = ''Error running webhint''"
    by (simp_all add: pendingHint_def)
  from error_case_marks_hints[of exEnv 20 10 jobError ?e "sub_config jobError"
        "pendingHint ''manifest-exists''" "[]"]
    error_case_marks_hints[of exEnv 20 10 jobError ?e "sub_config jobError"
        "pendingHint ''disown-opener''" "[]"]
    error_case_marks_hints[of exEnv 20 10 jobError ?e "sub_config jobError"
        "pendingHint ''axe''" "[]"]
    a b c d
  show ?thesis by simp
qed

text \<open>
  C7. When the deadline expires first, the terminal message has status \<^verbatim>\<open>finished\<close>
  (not \<^verbatim>\<open>error\<close>), the error payload \<^verbatim>\<open>{message: "TIMEOUT"}\<close>, and the hints of the
  sub-job with every pending one marked \<^verbatim>\<open>pass\<close> and the others unchanged. Every
  terminal message the worker sends then has that status and payload and no pending
  hint; when no emission is given up there is a terminal message on the queue for each
  package (at least one, when a terminal message without hints fits the limit), and the
  hints on the queue are exactly those hints with those statuses.
\<close>

theorem deadline_finished_timeout:
  "sub_status (terminalMessage E t1 (startedMessage t0 s) Deadline) = Job_finished \<and>
   sub_error (terminalMessage E t1 (startedMessage t0 s) Deadline) = Some (ErrorObject ''TIMEOUT'' None) \<and>
   sub_hints (terminalMessage E t1 (startedMessage t0 s) Deadline) = map passPending (sub_hints s) \<and>
   (hint_status h = Hint_pending \<longrightarrow> passPending h = h\<lparr>hint_status := Hint_pass\<rparr>) \<and>
   (hint_status h \<noteq> Hint_pending \<longrightarrow> passPending h = h) \<and>
   (\<forall>m\<in>set (terminalCalls (process E bus t0 t1 s Deadline)).
        sub_status m = Job_finished \<and> sub_error m = Some (ErrorObject ''TIMEOUT'' None) \<and>
        (\<forall>h\<in>set (sub_hints m). hint_status h \<noteq> Hint_pending)) \<and>
   (complete (process E bus t0 t1 s Deadline) \<longrightarrow>
        length (terminals (process E bus t0 t1 s Deadline)) =
          length (packages E (terminalMessage E t1 (startedMessage t0 s) Deadline)) \<and>
        ((sub_hints s = [] \<longrightarrow> messageSize E (terminalMessage E t1 (startedMessage t0 s) Deadline)
             \<le> maxMessageSize E) \<longrightarrow> terminals (process E bus t0 t1 s Deadline) \<noteq> []) \<and>
        mset (hintStatuses (concat (map sub_hints (terminals (process E bus t0 t1 s Deadline))))) =
        mset (hintStatuses (map passPending (sub_hints s))))"
proof -
  let ?T = "terminalMessage E t1 (startedMessage t0 s) Deadline"
  let ?log = "process E bus t0 t1 s Deadline"
  have T: "sub_status ?T = Job_finished" "sub_error ?T = Some (ErrorObject ''TIMEOUT'' None)"
    "sub_hints ?T = map passPending (sub_hints s)"
    by (simp_all add: timeoutMessage_def startedMessage_def)
  have h: "hint_status h = Hint_pending \<longrightarrow> passPending h = h\<lparr>hint_status := Hint_pass\<rparr>"
    "hint_status h \<noteq> Hint_pending \<longrightarrow> passPending h = h"
    by (simp_all add: passPending_def)
  have np: "\<forall>x\<in>set (hintStatuses (map passPending (sub_hints s))). snd x \<noteq> Hint_pending"
    by (auto simp: hintStatuses_def passPending_def)
  have calls: "\<forall>m\<in>set (terminalCalls ?log).
        sub_status m = Job_finished \<and> sub_error m = Some (ErrorObject ''TIMEOUT'' None) \<and>
        (\<forall>h\<in>set (sub_hints m). hint_status h \<noteq> Hint_pending)"
  proof
    fix m assume m: "m \<in> set (terminalCalls ?log)"
    note f = process_call_fields[OF m, unfolded T]
    have "\<forall>h\<in>set (sub_hints m). hint_status h \<noteq> Hint_pending"
    proof
      fix h assume "h \<in> set (sub_hints m)"
      then have "(hint_name h, hint_status h) \<in> set (hintStatuses (sub_hints m))"
        by (auto simp: hintStatuses_def)
      with f(3) np show "hint_status h \<noteq> Hint_pending" by fastforce
    qed
    with f(1,2) show "sub_status m = Job_finished \<and> sub_error m = Some (ErrorObject ''TIMEOUT'' None) \<and>
        (\<forall>h\<in>set (sub_hints m). hint_status h \<noteq> Hint_pending)" by simp
  qed
  have queue: "complete ?log \<longrightarrow>
        length (terminals ?log) = length (packages E ?T) \<and>
        ((sub_hints s = [] \<longrightarrow> messageSize E ?T \<le> maxMessageSize E) \<longrightarrow> terminals ?log \<noteq> []) \<and>
        mset (hintStatuses (concat (map sub_hints (terminals ?log)))) =
        mset (hintStatuses (map passPending (sub_hints s)))"
  proof
    assume c: "complete ?log"
    from process_complete[OF c] have "list_all2 (variant E) (packages E ?T) (terminals ?log)"
      by blast
    then have len: "length (terminals ?log) = length (packages E ?T)"
      using list_all2_lengthD by fastforce
    have ne: "(sub_hints s = [] \<longrightarrow> messageSize E ?T \<le> maxMessageSize E) \<longrightarrow> terminals ?log \<noteq> []"
    proof
      assume "sub_hints s = [] \<longrightarrow> messageSize E ?T \<le> maxMessageSize E"
      then have "sub_hints ?T = [] \<longrightarrow> messageSize E ?T \<le> maxMessageSize E"
        unfolding T by simp
      from packages_nonempty[OF this] len show "terminals ?log \<noteq> []" by auto
    qed
    from len ne process_terminal_statuses[OF c, unfolded T]
    show "length (terminals ?log) = length (packages E ?T) \<and>
        ((sub_hints s = [] \<longrightarrow> messageSize E ?T \<le> maxMessageSize E) \<longrightarrow> terminals ?log \<noteq> []) \<and>
        mset (hintStatuses (concat (map sub_hints (terminals ?log)))) =
        mset (hintStatuses (map passPending (sub_hints s)))" by simp
  qed
  from T h calls queue show ?thesis by blast
qed


theorem deadline_finished_timeout_witness:
  "hint_status (pendingHint ''axe'') = Hint_pending \<and>
   passPending (pendingHint ''axe'') = (pendingHint ''axe'')\<lparr>hint_status := Hint_pass\<rparr> \<and>
   complete (process exEnv [] 10 20 jobEmpty Deadline) \<and>
   sub_hints jobEmpty = [] \<and>
   messageSize exEnv (terminalMessage exEnv 20 (startedMessage 10 jobEmpty) Deadline)
        \<le> maxMessageSize exEnv \<and>
   map (\<lambda>c. (sub_status (fst c), sub_error (fst c), snd c)) (process exEnv [] 10 20 jobEmpty Deadline) =
     [(Job_started, None, SendOk), (Job_finished, Some (ErrorObject ''TIMEOUT'' None), SendOk)] \<and>
   terminals (process exEnv [] 10 20 jobEmpty Deadline) \<noteq> [] \<and>
   complete (process exEnv [] 10 20 jobTwo Deadline) \<and>
   terminalCalls (process exEnv [] 10 20 jobTwo Deadline) =
     [jobTwo\<lparr>sub_status := Job_finished, sub_started := Some 10, sub_finished := Some 20,
        sub_error := Some (ErrorObject ''TIMEOUT'' None),
        sub_hints := [\<lparr>hint_name = ''axe'', hint_status = Hint_pass, hint_messages = []\<rparr>,
                      \<lparr>hint_name = ''content-type'', hint_status = Hint_pass, hint_messages = []\<rparr>]\<rparr>] \<and>
   mset (hintStatuses (concat (map sub_hints (terminals (process exEnv [] 10 20 jobTwo Deadline))))) =
     mset [(''axe'', Hint_pass), (''content-type'', Hint_pass)]"
proof -
  have a: "hint_status (pendingHint ''axe'') = Hint_pending"
    "sub_hints jobEmpty = []"
    "messageSize exEnv (terminalMessage exEnv 20 (startedMessage 10 jobEmpty) Deadline)
        \<le> maxMessageSize exEnv"
    by (simp_all add: worker_defs worker_ex_defs)
  have b: "complete (process exEnv [] 10 20 jobEmpty Deadline)"
    "map (\<lambda>c. (sub_status (fst c), sub_error (fst c), snd c)) (process exEnv [] 10 20 jobEmpty Deadline) =
     [(Job_started, None, SendOk), (Job_finished, Some (ErrorObject ''TIMEOUT'' None), SendOk)]"
    "complete (process exEnv [] 10 20 jobTwo Deadline)"
    "terminalCalls (process exEnv [] 10 20 jobTwo Deadline) =
     [jobTwo\<lparr>sub_status := Job_finished, sub_started := Some 10, sub_finished := Some 20,
        sub_error := Some (ErrorObject ''TIMEOUT'' None),
        sub_hints := [\<lparr>hint_name = ''axe'', hint_status = Hint_pass, hint_messages = []\<rparr>,
                      \<lparr>hint_name = ''content-type'', hint_status = Hint_pass, hint_messages = []\<rparr>]\<rparr>]"
    by (simp_all add: worker_defs worker_ex_defs worker_eval del: sendMessage.simps(2))
  have c: "hintStatuses (map passPending (sub_hints jobTwo)) =
      [(''axe'', Hint_pass), (''content-type'', Hint_pass)]"
    by (simp add: worker_defs worker_ex_defs)
  from deadline_finished_timeout[of exEnv 20 10 jobEmpty "pendingHint ''axe''" "[]"]
    deadline_finished_timeout[of exEnv 20 10 jobTwo "pendingHint ''axe''" "[]"] a b c
  show ?thesis by simp
qed



end
